theory Spec2Isabelle
  imports Complex_Main "HOL-Library.AList"
begin

section \<open>Strings\<close>

text \<open>
  A JavaScript string is modelled as a \<^typ>\<open>string\<close>, a list of 8-bit characters read as
  ASCII. On ASCII text \<^verbatim>\<open>toUpperCase\<close> maps \<^verbatim>\<open>a..z\<close> to \<^verbatim>\<open>A..Z\<close> and leaves every other
  character alone, and \<^verbatim>\<open>length\<close> counts characters.
\<close>

definition lowerLetters :: string where
  "lowerLetters = ''abcdefghijklmnopqrstuvwxyz''"

text \<open>The constant \<^verbatim>\<open>'ABCDEFGHIJKLMNOPQRSTUVWXYZ'.split('')\<close> of \<^verbatim>\<open>generateNeighbors\<close>.\<close>

definition letters :: string where
  "letters = ''ABCDEFGHIJKLMNOPQRSTUVWXYZ''"

definition toUpperChar :: "char \<Rightarrow> char" where
  "toUpperChar c = (case map_of (zip lowerLetters letters) c of None \<Rightarrow> c | Some u \<Rightarrow> u)"

definition toUpperCase :: "string \<Rightarrow> string" where
  "toUpperCase s = map toUpperChar s"

text \<open>The white space \<^verbatim>\<open>trim\<close> strips, within ASCII: tab, line feed, vertical tab, form feed,
  carriage return and space.\<close>

definition isSpace :: "char \<Rightarrow> bool" where
  "isSpace c = (c \<in> set [CHR 0x09, CHR 0x0A, CHR 0x0B, CHR 0x0C, CHR 0x0D, CHR 0x20])"

definition trim :: "string \<Rightarrow> string" where
  "trim s = rev (dropWhile isSpace (rev (dropWhile isSpace s)))"

text \<open>The test \<^verbatim>\<open>word.length > 0 && /^[A-Z]+$/.test(word)\<close> of the preprocessing script.\<close>

definition isWord :: "string \<Rightarrow> bool" where
  "isWord w = (0 < length w \<and> list_all (\<lambda>c. c \<in> set letters) w)"

section \<open>One letter apart\<close>

text \<open>The loop of \<^verbatim>\<open>differByOne\<close>, with its early return at the second difference.\<close>

fun differLoop :: "string \<Rightarrow> string \<Rightarrow> nat \<Rightarrow> bool" where
  "differLoop (c1 # s1) (c2 # s2) diffCount =
     (if toUpperChar c1 \<noteq> toUpperChar c2
      then (if diffCount + 1 > 1 then False else differLoop s1 s2 (diffCount + 1))
      else differLoop s1 s2 diffCount)"
| "differLoop s1 s2 diffCount = (diffCount = 1)"

definition differByOne :: "string \<Rightarrow> string \<Rightarrow> bool" where
  "differByOne str1 str2 = (if length str1 \<noteq> length str2 then False else differLoop str1 str2 0)"

text \<open>The number of positions at which two strings differ.\<close>

definition mismatches :: "'a list \<Rightarrow> 'a list \<Rightarrow> nat" where
  "mismatches a b = length (filter (\<lambda>(x, y). x \<noteq> y) (zip a b))"

definition oneLetterApart :: "'a list \<Rightarrow> 'a list \<Rightarrow> bool" where
  "oneLetterApart a b = (length a = length b \<and> mismatches a b = 1)"

section \<open>The dictionary artifact and its store\<close>

text \<open>
  \<^verbatim>\<open>interface DictionaryData { words: string[]; graph: Record<string, string[]>;
  groups: Record<number, string[]> }\<close>. A JavaScript object is an association list in
  insertion order; a property is read with \<^const>\<open>map_of\<close>.
\<close>

record DictionaryData =
  words :: "string list"
  graph :: "(string \<times> string list) list"
  groups :: "(nat \<times> string list) list"

text \<open>
  What the file system holds at \<^verbatim>\<open>data/words-<n>.json\<close>: nothing (\<^verbatim>\<open>existsSync\<close> is false),
  a file whose read or parse throws, or a file that parses to an artifact.
\<close>

datatype artifact_file = Missing | Unreadable | Stored DictionaryData

text \<open>
  The process-wide state of the route: the module-level \<^verbatim>\<open>dictionaryCache\<close>, and the lengths
  for which \<^verbatim>\<open>console.error\<close> reported a load error. The field \<open>searches\<close> is instrumentation
  only: it counts the calls of \<^verbatim>\<open>findShortestPath\<close> the route has made.
\<close>

record server =
  dictionaryCache :: "nat \<rightharpoonup> DictionaryData"
  errorLog :: "nat list"
  searches :: nat

definition loadDictionary :: "(nat \<Rightarrow> artifact_file) \<Rightarrow> nat \<Rightarrow> server \<Rightarrow> DictionaryData option \<times> server" where
  "loadDictionary fs wordLength s =
     (case dictionaryCache s wordLength of
        Some d \<Rightarrow> (Some d, s)
      | None \<Rightarrow>
          (case fs wordLength of
             Missing \<Rightarrow> (None, s)
           | Stored d \<Rightarrow> (Some d, s\<lparr>dictionaryCache := (dictionaryCache s)(wordLength \<mapsto> d)\<rparr>)
           | Unreadable \<Rightarrow> (None, s\<lparr>errorLog := errorLog s @ [wordLength]\<rparr>)))"

section \<open>Breadth-first search over the stored graph\<close>

text \<open>\<^verbatim>\<open>graph[word] || []\<close>\<close>

definition neighborsOf :: "(string \<times> string list) list \<Rightarrow> string \<Rightarrow> string list" where
  "neighborsOf g word = (case map_of g word of None \<Rightarrow> [] | Some ns \<Rightarrow> ns)"

text \<open>
  The body of the \<^verbatim>\<open>for (const neighbor of neighbors)\<close> loop: a neighbour not yet visited is
  marked and queued with the path that reaches it.
\<close>

definition visit :: "'a list \<Rightarrow> 'a \<Rightarrow> 'a set \<times> ('a \<times> 'a list) list \<Rightarrow> 'a set \<times> ('a \<times> 'a list) list" where
  "visit path neighbor st =
     (if neighbor \<in> fst st then st
      else (insert neighbor (fst st), snd st @ [(neighbor, path @ [neighbor])]))"

lemma fst_fold_visit: "fst (fold (visit p) ns st) = fst st \<union> set ns"
  by (induction ns arbitrary: st) (auto simp: visit_def)

lemma card_Diff_insert_new:
  assumes "finite U" "n \<in> U" "n \<notin> V"
  shows "Suc (card (U - insert n V)) = card (U - V)"
proof -
  have "finite (U - V)" using assms(1) by simp
  moreover have "n \<in> U - V" using assms by simp
  ultimately have "card (U - V) = Suc (card (U - V - {n}))" by (rule card.remove)
  moreover have "U - V - {n} = U - insert n V" by blast
  ultimately show ?thesis by (simp only:)
qed

lemma visit_measure:
  assumes "finite U" "n \<in> U"
  shows "length (snd (visit p n st)) + card (U - fst (visit p n st))
         = length (snd st) + card (U - fst st)"
proof (cases "n \<in> fst st")
  case True
  then show ?thesis by (simp add: visit_def)
next
  case False
  with assms have "Suc (card (U - insert n (fst st))) = card (U - fst st)"
    by (intro card_Diff_insert_new)
  with False show ?thesis by (simp add: visit_def)
qed

lemma fold_visit_measure:
  assumes "finite U" "set ns \<subseteq> U"
  shows "length (snd (fold (visit p) ns st)) + card (U - fst (fold (visit p) ns st))
         = length (snd st) + card (U - fst st)"
  using assms(2)
proof (induction ns arbitrary: st)
  case Nil
  then show ?case by simp
next
  case (Cons n ns)
  from Cons.prems have "n \<in> U" and sub: "set ns \<subseteq> U" by simp_all
  with assms(1) have "length (snd (visit p n st)) + card (U - fst (visit p n st))
              = length (snd st) + card (U - fst st)"
    by (intro visit_measure)
  with Cons.IH [OF sub, of "visit p n st"] show ?case by simp
qed

definition nodes :: "(string \<times> string list) list \<Rightarrow> string set" where
  "nodes g = (\<Union>ns \<in> snd ` set g. set ns)"

lemma finite_nodes: "finite (nodes g)"
  by (simp add: nodes_def)

lemma neighborsOf_nodes: "set (neighborsOf g w) \<subseteq> nodes g"
proof (cases "map_of g w")
  case None
  then show ?thesis by (simp add: neighborsOf_def)
next
  case (Some ns)
  then have "(w, ns) \<in> set g" by (rule map_of_SomeD)
  then have "ns \<in> snd ` set g" by force
  then have "set ns \<subseteq> nodes g" unfolding nodes_def by blast
  with Some show ?thesis by (simp add: neighborsOf_def)
qed

text \<open>The \<^verbatim>\<open>while (queue.length > 0)\<close> loop of \<^verbatim>\<open>findShortestPath\<close>.\<close>

function bfs :: "(string \<times> string list) list \<Rightarrow> string \<Rightarrow> string set \<Rightarrow> (string \<times> string list) list \<Rightarrow> string list option" where
  "bfs g endW visited [] = None"
| "bfs g endW visited ((word, path) # queue) =
     (if word = endW then Some path
      else bfs g endW (fst (fold (visit path) (neighborsOf g word) (visited, queue)))
                      (snd (fold (visit path) (neighborsOf g word) (visited, queue))))"
  by pat_completeness auto
termination
proof (relation "measure (\<lambda>(g, e, v, q). length q + card (nodes g - v))")
  show "wf (measure (\<lambda>(g, e, v, q). length q + card (nodes g - v)))" by simp
next
  fix g :: "(string \<times> string list) list" and endW word :: string and visited :: "string set"
    and path :: "string list" and queue :: "(string \<times> string list) list"
  from fold_visit_measure [OF finite_nodes neighborsOf_nodes, of path g word "(visited, queue)"]
  show "((g, endW, fst (fold (visit path) (neighborsOf g word) (visited, queue)),
          snd (fold (visit path) (neighborsOf g word) (visited, queue))),
         (g, endW, visited, (word, path) # queue))
        \<in> measure (\<lambda>(g, e, v, q). length q + card (nodes g - v))"
    by (simp add: case_prod_beta)
qed

definition findShortestPath :: "string \<Rightarrow> string \<Rightarrow> (string \<times> string list) list \<Rightarrow> string list option" where
  "findShortestPath startWord endWord g =
     (let start = toUpperCase startWord; endW = toUpperCase endWord in
      if map_of g start = None \<or> map_of g endW = None then None
      else if start = endW then Some [start]
      else bfs g endW {start} [(start, [start])])"

text \<open>\<^verbatim>\<open>areInSameGroup\<close>: some group holds both words.\<close>

definition areInSameGroup :: "string \<Rightarrow> string \<Rightarrow> (nat \<times> string list) list \<Rightarrow> bool" where
  "areInSameGroup word1 word2 gs =
     (let w1 = toUpperCase word1; w2 = toUpperCase word2 in
      list_ex (\<lambda>group. w1 \<in> set group \<and> w2 \<in> set group) (map snd gs))"

section \<open>The route\<close>

datatype failure =
    MissingWord
  | LengthMismatch
  | LengthOutOfRange
  | DictionaryNotFound nat
  | WordNotInDictionary
  | NotConnected
  | NoPathFound

fun status :: "failure \<Rightarrow> nat" where
  "status MissingWord = 400"
| "status LengthMismatch = 400"
| "status LengthOutOfRange = 400"
| "status (DictionaryNotFound n) = 404"
| "status WordNotInDictionary = 400"
| "status NotConnected = 400"
| "status NoPathFound = 404"

text \<open>
  The JSON of a response: \<^verbatim>\<open>{ error }\<close> with its status, or
  \<^verbatim>\<open>{ success: true, path, length }\<close>.
\<close>

datatype response = Failure failure | Success "string list" nat

text \<open>
  The handler, on a body whose two fields are strings (the empty string is falsy, as a
  missing field is).
\<close>

definition POST :: "(nat \<Rightarrow> artifact_file) \<Rightarrow> string \<Rightarrow> string \<Rightarrow> server \<Rightarrow> response \<times> server" where
  "POST fs startWord endWord s =
     (if startWord = [] \<or> endWord = [] then (Failure MissingWord, s)
      else
        let start = trim (toUpperCase startWord); endW = trim (toUpperCase endWord) in
        if length start \<noteq> length endW then (Failure LengthMismatch, s)
        else if length start < 2 \<or> length start > 15 then (Failure LengthOutOfRange, s)
        else
          (case loadDictionary fs (length start) s of
             (None, s') \<Rightarrow> (Failure (DictionaryNotFound (length start)), s')
           | (Some dictionary, s') \<Rightarrow>
               if map_of (graph dictionary) start = None \<or> map_of (graph dictionary) endW = None
               then (Failure WordNotInDictionary, s')
               else if \<not> areInSameGroup start endW (groups dictionary)
               then (Failure NotConnected, s')
               else
                 (case findShortestPath start endW (graph dictionary) of
                    None \<Rightarrow> (Failure NoPathFound, s'\<lparr>searches := searches s' + 1\<rparr>)
                  | Some path \<Rightarrow>
                      if length path < 2
                      then (Failure NoPathFound, s'\<lparr>searches := searches s' + 1\<rparr>)
                      else (Success path (length path), s'\<lparr>searches := searches s' + 1\<rparr>))))"

section \<open>The preprocessing script\<close>

text \<open>\<^verbatim>\<open>word.slice(0, i) + '_' + word.slice(i + 1)\<close>\<close>

definition pattern :: "string \<Rightarrow> nat \<Rightarrow> string" where
  "pattern word i = take i word @ ''_'' @ drop (i + 1) word"

text \<open>\<^verbatim>\<open>if (!patternMap[pattern]) patternMap[pattern] = []; patternMap[pattern].push(word)\<close>\<close>

definition pushWord :: "string \<Rightarrow> string \<Rightarrow> (string \<times> string list) list \<Rightarrow> (string \<times> string list) list" where
  "pushWord pat word patternMap = AList.map_default pat [word] (\<lambda>ws. ws @ [word]) patternMap"

definition buildPatternMap :: "string list \<Rightarrow> (string \<times> string list) list" where
  "buildPatternMap wordList =
     fold (\<lambda>word. fold (\<lambda>i. pushWord (pattern word i) word) [0..<length word]) wordList []"

text \<open>\<^verbatim>\<open>patternMap[pattern] || []\<close>\<close>

definition wordsInPattern :: "(string \<times> string list) list \<Rightarrow> string \<Rightarrow> string list" where
  "wordsInPattern patternMap pat = (case map_of patternMap pat of None \<Rightarrow> [] | Some ws \<Rightarrow> ws)"

text \<open>\<^verbatim>\<open>Set.add\<close> on a set that keeps its insertion order.\<close>

definition setAdd :: "'a \<Rightarrow> 'a list \<Rightarrow> 'a list" where
  "setAdd x xs = (if x \<in> set xs then xs else xs @ [x])"

text \<open>The \<^verbatim>\<open>neighborSet\<close> of a word, as \<^verbatim>\<open>Array.from\<close> lists it.\<close>

definition neighborSet :: "(string \<times> string list) list \<Rightarrow> string \<Rightarrow> string list" where
  "neighborSet patternMap word =
     fold (\<lambda>i. fold (\<lambda>neighbor ns. if neighbor \<noteq> word then setAdd neighbor ns else ns)
                  (wordsInPattern patternMap (pattern word i)))
          [0..<length word] []"

definition buildGraph :: "string list \<Rightarrow> (string \<times> string list) list" where
  "buildGraph wordList =
     (let patternMap = buildPatternMap wordList
      in fold (\<lambda>word. AList.update word (neighborSet patternMap word)) wordList [])"

text \<open>
  The body of the \<^verbatim>\<open>for (const neighbor of graph[current] || [])\<close> loop of the group search.
\<close>

definition mark :: "'a \<Rightarrow> 'a set \<times> 'a list \<Rightarrow> 'a set \<times> 'a list" where
  "mark neighbor st =
     (if neighbor \<in> fst st then st else (insert neighbor (fst st), snd st @ [neighbor]))"

lemma fst_fold_mark: "fst (fold mark ns st) = fst st \<union> set ns"
  by (induction ns arbitrary: st) (auto simp: mark_def)

lemma mark_measure:
  assumes "finite U" "n \<in> U"
  shows "length (snd (mark n st)) + card (U - fst (mark n st)) = length (snd st) + card (U - fst st)"
proof (cases "n \<in> fst st")
  case True
  then show ?thesis by (simp add: mark_def)
next
  case False
  with assms have "Suc (card (U - insert n (fst st))) = card (U - fst st)"
    by (intro card_Diff_insert_new)
  with False show ?thesis by (simp add: mark_def)
qed

lemma fold_mark_measure:
  assumes "finite U" "set ns \<subseteq> U"
  shows "length (snd (fold mark ns st)) + card (U - fst (fold mark ns st))
         = length (snd st) + card (U - fst st)"
  using assms(2)
proof (induction ns arbitrary: st)
  case Nil
  then show ?case by simp
next
  case (Cons n ns)
  from Cons.prems have "n \<in> U" and sub: "set ns \<subseteq> U" by simp_all
  with assms(1) have "length (snd (mark n st)) + card (U - fst (mark n st))
              = length (snd st) + card (U - fst st)"
    by (intro mark_measure)
  with Cons.IH [OF sub, of "mark n st"] show ?case by simp
qed

text \<open>
  The \<^verbatim>\<open>while (queue.length > 0)\<close> loop of the group search: it returns the visited set and
  the group.
\<close>

function collect :: "(string \<times> string list) list \<Rightarrow> string set \<Rightarrow> string list \<Rightarrow> string list \<Rightarrow> string set \<times> string list" where
  "collect g visited [] grp = (visited, grp)"
| "collect g visited (current # queue) grp =
     collect g (fst (fold mark (neighborsOf g current) (visited, queue)))
               (snd (fold mark (neighborsOf g current) (visited, queue)))
               (grp @ [current])"
  by pat_completeness auto
termination
proof (relation "measure (\<lambda>(g, v, q, grp). length q + card (nodes g - v))")
  show "wf (measure (\<lambda>(g, v, q, grp). length q + card (nodes g - v)))" by simp
next
  fix g :: "(string \<times> string list) list" and visited :: "string set" and current :: string
    and queue grp :: "string list"
  from fold_mark_measure [OF finite_nodes neighborsOf_nodes, of g current "(visited, queue)"]
  show "((g, fst (fold mark (neighborsOf g current) (visited, queue)),
          snd (fold mark (neighborsOf g current) (visited, queue)), grp @ [current]),
         (g, visited, current # queue, grp))
        \<in> measure (\<lambda>(g, v, q, grp). length q + card (nodes g - v))"
    by (simp add: case_prod_beta)
qed

text \<open>
  One round of the \<^verbatim>\<open>for (const word of wordList)\<close> loop, on the state \<^verbatim>\<open>groups\<close>,
  \<^verbatim>\<open>visited\<close>, \<^verbatim>\<open>groupId\<close>.
\<close>

definition groupStep :: "(string \<times> string list) list \<Rightarrow> string \<Rightarrow>
    (nat \<times> string list) list \<times> string set \<times> nat \<Rightarrow> (nat \<times> string list) list \<times> string set \<times> nat" where
  "groupStep g word st =
     (case st of (gs, visited, groupId) \<Rightarrow>
        if word \<in> visited then st
        else
          (case collect g (insert word visited) [word] [] of (visited', grp) \<Rightarrow>
             if length grp > 0
             then (AList.update groupId grp gs, visited', groupId + 1)
             else (gs, visited', groupId)))"

definition findGroups :: "(string \<times> string list) list \<Rightarrow> string list \<Rightarrow> (nat \<times> string list) list" where
  "findGroups g wordList = fst (fold (groupStep g) wordList ([], {}, 0))"

text \<open>The artifact the script writes for the words of one length.\<close>

definition preprocessWords :: "string list \<Rightarrow> DictionaryData" where
  "preprocessWords wordList =
     (let g = buildGraph wordList
      in \<lparr>words = wordList, graph = g, groups = findGroups g wordList\<rparr>)"

text \<open>
  The words the script reads from the lines of \<^verbatim>\<open>dictionary.txt\<close> (the first line is a header),
  the words of one length, and the artifact written for a length (none for a length outside
  \<^verbatim>\<open>lengthsToProcess\<close> or without words).
\<close>

definition dictionaryWords :: "string list \<Rightarrow> string list" where
  "dictionaryWords lines = filter isWord (map (\<lambda>line. toUpperCase (trim line)) (drop 1 lines))"

definition wordsByLength :: "string list \<Rightarrow> nat \<Rightarrow> string list" where
  "wordsByLength ws len = filter (\<lambda>word. length word = len) ws"

definition lengthsToProcess :: "nat list" where
  "lengthsToProcess = [2, 3, 4, 5, 6, 7, 8, 9, 10]"

definition preprocessDictionary :: "string list \<Rightarrow> nat \<Rightarrow> DictionaryData option" where
  "preprocessDictionary lines len =
     (let wordList = wordsByLength (dictionaryWords lines) len
      in if len \<in> set lengthsToProcess \<and> wordList \<noteq> [] then Some (preprocessWords wordList) else None)"

section \<open>The ladder generator without a dictionary\<close>

text \<open>
  \<^verbatim>\<open>generateNeighbors\<close>: at each position each of the 26 letters, unless the result is the
  word itself up to case.
\<close>

definition generateNeighbors :: "string \<Rightarrow> string list" where
  "generateNeighbors word =
     concat (map (\<lambda>i. filter (\<lambda>neighbor. toUpperCase neighbor \<noteq> toUpperCase word)
                        (map (\<lambda>letter. take i word @ [letter] @ drop (i + 1) word) letters))
                 [0..<length word])"

text \<open>The body of the \<^verbatim>\<open>for (const neighbor of neighbors)\<close> loop of \<^verbatim>\<open>generateWordLadder\<close>.\<close>

definition visitLadder :: "string \<Rightarrow> string list \<Rightarrow> string \<Rightarrow>
    string set \<times> (string \<times> string list) list \<Rightarrow> string set \<times> (string \<times> string list) list" where
  "visitLadder word path neighbor st =
     (let neighborUpper = toUpperCase neighbor
      in if neighborUpper \<notin> fst st \<and> differByOne word neighbor
         then (insert neighborUpper (fst st), snd st @ [(neighbor, path @ [neighbor])])
         else st)"

lemma length_toUpperCase: "length (toUpperCase s) = length s"
  by (simp add: toUpperCase_def)

text \<open>The longest word of a queue.\<close>

fun longest :: "(string \<times> 'b) list \<Rightarrow> nat" where
  "longest [] = 0"
| "longest (x # q) = max (length (fst x)) (longest q)"

lemma longest_append: "longest (q @ r) = max (longest q) (longest r)"
  by (induction q) auto

lemma finite_upto: "finite {xs :: string. length xs \<le> n}"
  using finite_lists_length_le [of "UNIV :: char set" n] by simp

lemma length_generateNeighbors: "n \<in> set (generateNeighbors word) \<Longrightarrow> length n = length word"
  by (auto simp: generateNeighbors_def)

lemma visitLadder_measure:
  assumes "finite U" "toUpperCase n \<in> U"
  shows "length (snd (visitLadder word path n st)) + card (U - fst (visitLadder word path n st))
         = length (snd st) + card (U - fst st)"
proof (cases "toUpperCase n \<notin> fst st \<and> differByOne word n")
  case False
  then show ?thesis by (auto simp: visitLadder_def Let_def)
next
  case True
  with assms have "Suc (card (U - insert (toUpperCase n) (fst st))) = card (U - fst st)"
    by (intro card_Diff_insert_new) simp_all
  with True show ?thesis by (simp add: visitLadder_def Let_def)
qed

lemma fold_visitLadder_measure:
  assumes "finite U" "\<forall>n \<in> set ns. toUpperCase n \<in> U"
  shows "length (snd (fold (visitLadder word path) ns st))
           + card (U - fst (fold (visitLadder word path) ns st))
         = length (snd st) + card (U - fst st)"
  using assms(2)
proof (induction ns arbitrary: st)
  case Nil
  then show ?case by simp
next
  case (Cons n ns)
  from Cons.prems have n: "toUpperCase n \<in> U" and sub: "\<forall>n \<in> set ns. toUpperCase n \<in> U"
    by simp_all
  from visitLadder_measure [OF assms(1) n, of word path st]
    Cons.IH [OF sub, of "visitLadder word path n st"]
  show ?case by simp
qed

lemma longest_fold_visitLadder:
  assumes "\<forall>n \<in> set ns. length n \<le> M" "longest (snd st) \<le> M"
  shows "longest (snd (fold (visitLadder word path) ns st)) \<le> M"
  using assms
proof (induction ns arbitrary: st)
  case Nil
  then show ?case by simp
next
  case (Cons n ns)
  from Cons.prems have "longest (snd (visitLadder word path n st)) \<le> M"
    by (simp add: visitLadder_def Let_def longest_append)
  with Cons.IH [of "visitLadder word path n st"] Cons.prems(1) show ?case by simp
qed

text \<open>
  A JavaScript \<^verbatim>\<open>number\<close>, as far as comparison with a length goes: a real number (every
  finite double is one), an infinity or \<^verbatim>\<open>NaN\<close>. \<^verbatim>\<open>n >= m\<close> and \<^verbatim>\<open>n <= m\<close> for a length
  \<open>n\<close> and a number \<open>m\<close>; both are false when \<open>m\<close> is \<^verbatim>\<open>NaN\<close>.
\<close>

datatype number = Num real | Infinity | NegInfinity | NaN

fun geNumber :: "nat \<Rightarrow> number \<Rightarrow> bool" where
  "geNumber n (Num r) = (real n \<ge> r)"
| "geNumber n Infinity = False"
| "geNumber n NegInfinity = True"
| "geNumber n NaN = False"

fun leNumber :: "nat \<Rightarrow> number \<Rightarrow> bool" where
  "leNumber n (Num r) = (real n \<le> r)"
| "leNumber n Infinity = True"
| "leNumber n NegInfinity = False"
| "leNumber n NaN = False"

text \<open>The \<^verbatim>\<open>while (queue.length > 0)\<close> loop of \<^verbatim>\<open>generateWordLadder\<close>.\<close>

function ladderLoop :: "string \<Rightarrow> number \<Rightarrow> string set \<Rightarrow> (string \<times> string list) list \<Rightarrow> string list option" where
  "ladderLoop endWord maxSteps visited [] = None"
| "ladderLoop endWord maxSteps visited ((word, path) # queue) =
     (if toUpperCase word = toUpperCase endWord then Some path
      else if geNumber (length path) maxSteps then ladderLoop endWord maxSteps visited queue
      else ladderLoop endWord maxSteps
             (fst (fold (visitLadder word path) (generateNeighbors word) (visited, queue)))
             (snd (fold (visitLadder word path) (generateNeighbors word) (visited, queue))))"
  by pat_completeness auto
termination
proof (relation "measure (\<lambda>(e, m, v, q). length q + card ({xs. length xs \<le> longest q} - v))")
  show "wf (measure (\<lambda>(e, m, v, q). length q + card ({xs. length xs \<le> longest q} - v)))"
    by simp
next
  fix endWord :: string and maxSteps :: number and visited :: "string set" and word :: string
    and path :: "string list" and queue :: "(string \<times> string list) list"
  have "{xs. length xs \<le> longest queue} - visited
        \<subseteq> {xs. length xs \<le> longest ((word, path) # queue)} - visited"
    by auto
  then have "card ({xs. length xs \<le> longest queue} - visited)
        \<le> card ({xs. length xs \<le> longest ((word, path) # queue)} - visited)"
    by (intro card_mono finite_Diff finite_upto)
  then show "((endWord, maxSteps, visited, queue), (endWord, maxSteps, visited, (word, path) # queue))
        \<in> measure (\<lambda>(e, m, v, q). length q + card ({xs. length xs \<le> longest q} - v))"
    by simp
next
  fix endWord :: string and maxSteps :: number and visited :: "string set" and word :: string
    and path :: "string list" and queue :: "(string \<times> string list) list"
  define M where "M = longest ((word, path) # queue)"
  define V' where "V' = fst (fold (visitLadder word path) (generateNeighbors word) (visited, queue))"
  define Q' where "Q' = snd (fold (visitLadder word path) (generateNeighbors word) (visited, queue))"
  have len: "\<forall>n \<in> set (generateNeighbors word). length n \<le> M"
    by (simp add: length_generateNeighbors M_def)
  then have up: "\<forall>n \<in> set (generateNeighbors word). toUpperCase n \<in> {xs. length xs \<le> M}"
    by (simp add: length_toUpperCase)
  have eq: "length Q' + card ({xs. length xs \<le> M} - V')
            = length queue + card ({xs. length xs \<le> M} - visited)"
    using fold_visitLadder_measure [OF finite_upto up, of word path "(visited, queue)"]
    by (simp add: V'_def Q'_def)
  have "longest Q' \<le> M"
    unfolding Q'_def by (rule longest_fold_visitLadder [OF len]) (simp add: M_def)
  then have "{xs. length xs \<le> longest Q'} - V' \<subseteq> {xs. length xs \<le> M} - V'" by auto
  then have "card ({xs. length xs \<le> longest Q'} - V') \<le> card ({xs. length xs \<le> M} - V')"
    by (intro card_mono finite_Diff finite_upto)
  with eq have "length Q' + card ({xs. length xs \<le> longest Q'} - V')
      < length ((word, path) # queue) + card ({xs. length xs \<le> M} - visited)"
    by simp
  then show "((endWord, maxSteps, V', Q'), (endWord, maxSteps, visited, (word, path) # queue))
        \<in> measure (\<lambda>(e, m, v, q). length q + card ({xs. length xs \<le> longest q} - v))"
    by (simp add: M_def)
qed

text \<open>\<^verbatim>\<open>generateWordLadder(startWord, endWord, maxSteps = 10)\<close>\<close>

definition generateWordLadder :: "string \<Rightarrow> string \<Rightarrow> number \<Rightarrow> string list option" where
  "generateWordLadder startWord endWord maxSteps =
     (if length startWord \<noteq> length endWord then None
      else ladderLoop endWord maxSteps {toUpperCase startWord} [(startWord, [startWord])])"

definition defaultMaxSteps :: number where
  "defaultMaxSteps = Num 10"

text \<open>A string of the letters \<open>A\<close> to \<open>Z\<close> (the empty string included).\<close>

definition isUpper :: "string \<Rightarrow> bool" where
  "isUpper w = (set w \<subseteq> set letters)"

section \<open>Paths in a graph\<close>

text \<open>
  A graph is given by the list of neighbours of each vertex. A walk from \<open>s\<close> to \<open>t\<close> is a
  non-empty list that starts with \<open>s\<close>, ends with \<open>t\<close> and steps from each element to one of
  its neighbours. The distance from \<open>s\<close> to \<open>t\<close> is the least number of steps of a walk.
\<close>

definition walk :: "('a \<Rightarrow> 'a list) \<Rightarrow> 'a \<Rightarrow> 'a \<Rightarrow> 'a list \<Rightarrow> bool" where
  "walk nb s t p = (p \<noteq> [] \<and> hd p = s \<and> last p = t \<and> successively (\<lambda>u v. v \<in> set (nb u)) p)"

definition graph_distance :: "('a \<Rightarrow> 'a list) \<Rightarrow> 'a \<Rightarrow> 'a \<Rightarrow> nat" where
  "graph_distance nb s t = (LEAST d. \<exists>q. walk nb s t q \<and> length q = Suc d)"

text \<open>
  What holds of the visited set \<open>V\<close> and the queue \<open>Q\<close> each time the loop of a breadth-first
  search from \<open>s\<close> for \<open>e\<close> tests its queue; \<open>K\<close> bounds the number of words of the walks
  the search is compared with.
\<close>

definition inv_paths :: "('a \<Rightarrow> 'a list) \<Rightarrow> 'a \<Rightarrow> nat \<Rightarrow> 'a set \<Rightarrow> ('a \<times> 'a list) list \<Rightarrow> bool" where
  "inv_paths nb s K V Q =
     (\<forall>x \<in> set Q. walk nb s (fst x) (snd x) \<and> fst x \<in> V \<and>
        (\<forall>q. walk nb s (fst x) q \<longrightarrow> length q \<le> K \<longrightarrow> length (snd x) \<le> length q))"

definition inv_order :: "('a \<times> 'a list) list \<Rightarrow> bool" where
  "inv_order Q =
     (sorted (map (\<lambda>x. length (snd x)) Q) \<and>
      (\<forall>x \<in> set Q. length (snd x) \<le> Suc (length (snd (hd Q)))))"

definition inv_done :: "('a \<Rightarrow> 'a list) \<Rightarrow> 'a \<Rightarrow> 'a \<Rightarrow> nat \<Rightarrow> 'a set \<Rightarrow> ('a \<times> 'a list) list \<Rightarrow> bool" where
  "inv_done nb s e K V Q =
     (\<forall>u. u \<in> V \<longrightarrow> u \<notin> fst ` set Q \<longrightarrow>
        u \<noteq> e \<and> (\<forall>q. walk nb s u q \<longrightarrow> length q < K \<longrightarrow> set (nb u) \<subseteq> V))"

definition inv_front :: "('a \<Rightarrow> 'a list) \<Rightarrow> 'a \<Rightarrow> nat \<Rightarrow> 'a set \<Rightarrow> ('a \<times> 'a list) list \<Rightarrow> bool" where
  "inv_front nb s K V Q =
     (Q \<noteq> [] \<longrightarrow>
        (\<forall>q v. walk nb s v q \<longrightarrow> length q \<le> length (snd (hd Q)) \<longrightarrow> length q \<le> K \<longrightarrow> v \<in> V))"

definition bfs_inv :: "('a \<Rightarrow> 'a list) \<Rightarrow> 'a \<Rightarrow> 'a \<Rightarrow> nat \<Rightarrow> 'a set \<Rightarrow> ('a \<times> 'a list) list \<Rightarrow> bool" where
  "bfs_inv nb s e K V Q =
     (s \<in> V \<and> inv_paths nb s K V Q \<and> inv_order Q \<and> inv_done nb s e K V Q \<and> inv_front nb s K V Q)"

text \<open>The steps of a graph, as a relation.\<close>

definition edges :: "('a \<Rightarrow> 'a list) \<Rightarrow> ('a \<times> 'a) set" where
  "edges nb = {(u, v). v \<in> set (nb u)}"

text \<open>
  What holds of \<^verbatim>\<open>groups\<close>, \<^verbatim>\<open>visited\<close> and \<^verbatim>\<open>groupId\<close> between two rounds of the group
  search on a graph whose neighbours all lie in \<open>W\<close>.
\<close>

definition groups_inv :: "(string \<times> string list) list \<Rightarrow> string set \<Rightarrow>
    (nat \<times> string list) list \<times> string set \<times> nat \<Rightarrow> bool" where
  "groups_inv g W st =
     (case st of (gs, visited, groupId) \<Rightarrow>
        visited = \<Union> (set ` snd ` set gs) \<and> visited \<subseteq> W \<and>
        distinct (concat (map snd gs)) \<and> map fst gs = [0..<groupId] \<and>
        (\<forall>u \<in> visited. set (neighborsOf g u) \<subseteq> visited) \<and>
        (\<forall>grp \<in> snd ` set gs. \<forall>a \<in> set grp.
           set grp = {b. (a, b) \<in> (edges (neighborsOf g))\<^sup>*}))"

section \<open>A small artifact and an empty store\<close>

definition fixture2 :: DictionaryData where
  "fixture2 = \<lparr>words = [''AB'', ''AC'', ''XY''],
               graph = [(''AB'', [''AC'']), (''AC'', [''AB'']), (''XY'', [])],
               groups = [(0, [''AB'', ''AC'']), (1, [''XY''])]\<rparr>"

definition server0 :: server where
  "server0 = \<lparr>dictionaryCache = Map.empty, errorLog = [], searches = 0\<rparr>"

definition fixture3 :: "(string \<times> string list) list" where
  "fixture3 = [(''CAT'', [''COT'', ''CAR'']), (''COT'', [''CAT'', ''COG'']), (''CAR'', [''CAT'']),
               (''COG'', [''COT'', ''DOG'']), (''DOG'', [''COG'']), (''EMU'', [])]"

definition fixture6 :: "string list" where
  "fixture6 = [''CORE'', ''CORK'', ''FORK'', ''FORT'', ''FOOT'', ''PORT'']"

definition fixtureWords :: "string list" where
  "fixtureWords = [''AB'', ''AC'', ''XY'']"

section \<open>Facts about strings\<close>

lemma toUpperChar_letter: "c \<in> set letters \<Longrightarrow> toUpperChar c = c"
  unfolding letters_def
  by (simp, elim disjE; simp add: toUpperChar_def letters_def lowerLetters_def)

lemma toUpperChar_in_cases: "toUpperChar c = c \<or> toUpperChar c \<in> set letters"
proof (cases "map_of (zip lowerLetters letters) c")
  case None
  then show ?thesis by (simp add: toUpperChar_def)
next
  case (Some u)
  then have "(c, u) \<in> set (zip lowerLetters letters)" by (rule map_of_SomeD)
  then have "u \<in> set letters" by (rule set_zip_rightD)
  with Some show ?thesis by (simp add: toUpperChar_def)
qed

lemma toUpperChar_idem: "toUpperChar (toUpperChar c) = toUpperChar c"
  using toUpperChar_in_cases [of c] toUpperChar_letter [of "toUpperChar c"] by auto

lemma toUpperCase_idem: "toUpperCase (toUpperCase s) = toUpperCase s"
  by (simp add: toUpperCase_def toUpperChar_idem)

lemma toUpperCase_isWord: "isWord w \<Longrightarrow> toUpperCase w = w"
  by (simp add: isWord_def toUpperCase_def list_all_iff map_idI toUpperChar_letter)

lemma set_trim: "set (trim s) \<subseteq> set s"
proof -
  have "set (trim s) \<subseteq> set (rev (dropWhile isSpace s))"
    unfolding trim_def using set_dropWhileD by fastforce
  also have "\<dots> \<subseteq> set s" using set_dropWhileD by fastforce
  finally show ?thesis .
qed

lemma toUpperCase_fixed: "(\<And>c. c \<in> set s \<Longrightarrow> toUpperChar c = c) \<Longrightarrow> toUpperCase s = s"
  by (simp add: toUpperCase_def map_idI)

lemma toUpperCase_trim_upper: "toUpperCase (trim (toUpperCase s)) = trim (toUpperCase s)"
proof (rule toUpperCase_fixed)
  fix c assume "c \<in> set (trim (toUpperCase s))"
  then have "c \<in> set (toUpperCase s)" using set_trim by blast
  then show "toUpperChar c = c" by (auto simp: toUpperCase_def toUpperChar_idem)
qed

lemma letter_not_space: "c \<in> set letters \<Longrightarrow> \<not> isSpace c"
  unfolding letters_def
  by (simp, elim disjE; simp add: isSpace_def)

lemma trim_isWord: "isWord w \<Longrightarrow> trim w = w"
proof -
  assume w: "isWord w"
  then have ne: "w \<noteq> []" and all: "\<forall>c \<in> set w. \<not> isSpace c"
    by (auto simp: isWord_def list_all_iff letter_not_space)
  from ne all have "dropWhile isSpace w = w" by (cases w) auto
  moreover from ne all have "dropWhile isSpace (rev w) = rev w" by (cases "rev w") auto
  ultimately show ?thesis by (simp add: trim_def)
qed

section \<open>The store and the route\<close>

lemma isWord_fixture2: "isWord ''AB''" "isWord ''AC''" "isWord ''XY''"
  by (simp_all add: isWord_def letters_def)

lemma toUpperCase_fixture2:
  "toUpperCase ''AB'' = ''AB''" "toUpperCase ''AC'' = ''AC''" "toUpperCase ''XY'' = ''XY''"
  by (simp_all add: toUpperCase_isWord isWord_fixture2)

lemma trim_fixture2: "trim ''AB'' = ''AB''" "trim ''AC'' = ''AC''" "trim ''XY'' = ''XY''"
  by (simp_all add: trim_isWord isWord_fixture2)

lemmas POST_eval = Let_def POST_def toUpperCase_fixture2 trim_fixture2 loadDictionary_def
  server0_def fixture2_def areInSameGroup_def findShortestPath_def visit_def neighborsOf_def

lemma areInSameGroup_iff:
  "areInSameGroup a b gs \<longleftrightarrow>
     (\<exists>grp \<in> snd ` set gs. toUpperCase a \<in> set grp \<and> toUpperCase b \<in> set grp)"
  by (simp add: areInSameGroup_def Let_def list_ex_iff)

lemma loadDictionary_searches: "searches (snd (loadDictionary fs n s)) = searches s"
  by (simp add: loadDictionary_def split: option.splits artifact_file.splits)

text \<open>
  Claim C9. \<^verbatim>\<open>loadDictionary\<close> adds a cache entry only when the artifact was read and parsed:
  on a miss with a stored artifact it returns the artifact and caches it; on a miss with a
  missing or unreadable file it returns null and leaves the cache as it was, so the next call
  for that length reads the file system again (and finds an artifact stored meanwhile); on a
  hit it returns the cached artifact and changes nothing.
\<close>

theorem loadDictionary_caches_only_success:
  "(dictionaryCache s n = None \<longrightarrow>
      (case fs n of
         Stored d \<Rightarrow>
           loadDictionary fs n s = (Some d, s\<lparr>dictionaryCache := (dictionaryCache s)(n \<mapsto> d)\<rparr>)
       | _ \<Rightarrow>
           fst (loadDictionary fs n s) = None \<and>
           dictionaryCache (snd (loadDictionary fs n s)) = dictionaryCache s \<and>
           fst (loadDictionary fs' n (snd (loadDictionary fs n s)))
             = (case fs' n of Stored d' \<Rightarrow> Some d' | _ \<Rightarrow> None)))
   \<and> (\<forall>d. dictionaryCache s n = Some d \<longrightarrow> loadDictionary fs n s = (Some d, s))"
  by (cases "fs n"; cases "fs' n"; simp add: loadDictionary_def)

text \<open>The claim at a concrete store: a failed read of length 2, then a successful one.\<close>

theorem loadDictionary_caches_only_success_witness:
  "fst (loadDictionary (\<lambda>_. Unreadable) 2 server0) = None \<and>
   dictionaryCache (snd (loadDictionary (\<lambda>_. Unreadable) 2 server0)) = dictionaryCache server0 \<and>
   fst (loadDictionary (\<lambda>_. Stored fixture2) 2 (snd (loadDictionary (\<lambda>_. Unreadable) 2 server0)))
     = Some fixture2"
  using loadDictionary_caches_only_success
    [of server0 2 "\<lambda>_. Unreadable" "\<lambda>_. Stored fixture2"]
  by (simp add: server0_def)

text \<open>
  Claim C8, as stated, fails: a missing artifact and an unreadable one give the caller the
  same outcome, both from \<^verbatim>\<open>loadDictionary\<close> and from the route.
\<close>

theorem load_failures_not_distinct:
  "fst (loadDictionary (\<lambda>_. Missing) 2 server0) = fst (loadDictionary (\<lambda>_. Unreadable) 2 server0) \<and>
   fst (POST (\<lambda>_. Missing) ''AB'' ''AC'' server0) = fst (POST (\<lambda>_. Unreadable) ''AB'' ''AC'' server0)"
  by (simp add: POST_eval)

text \<open>
  Claim C8, amended. \<^verbatim>\<open>loadDictionary\<close> returns null both when no artifact exists for the
  length and when the artifact cannot be read or parsed (the second is also reported through
  \<^verbatim>\<open>console.error\<close>), and the route answers both with the same dictionary-not-found
  failure for that length.
\<close>

theorem load_failures_same_outcome:
  assumes "dictionaryCache s n = None" "fs n = Missing" "fs' n = Unreadable"
  shows "loadDictionary fs n s = (None, s) \<and>
         loadDictionary fs' n s = (None, s\<lparr>errorLog := errorLog s @ [n]\<rparr>) \<and>
         (\<forall>a b. a \<noteq> [] \<and> b \<noteq> [] \<and> length (trim (toUpperCase a)) = n \<and>
                length (trim (toUpperCase b)) = n \<and> 2 \<le> n \<and> n \<le> 15 \<longrightarrow>
            fst (POST fs a b s) = Failure (DictionaryNotFound n) \<and>
            fst (POST fs' a b s) = Failure (DictionaryNotFound n))"
  using assms by (simp add: loadDictionary_def POST_def Let_def)

text \<open>The amended claim at length 2.\<close>

theorem load_failures_same_outcome_witness:
  "loadDictionary (\<lambda>_. Missing) 2 server0 = (None, server0) \<and>
   loadDictionary (\<lambda>_. Unreadable) 2 server0 = (None, server0\<lparr>errorLog := [2]\<rparr>) \<and>
   fst (POST (\<lambda>_. Missing) ''AB'' ''AC'' server0) = Failure (DictionaryNotFound 2) \<and>
   fst (POST (\<lambda>_. Unreadable) ''AB'' ''AC'' server0) = Failure (DictionaryNotFound 2)"
  using load_failures_same_outcome [of server0 2 "\<lambda>_. Missing" "\<lambda>_. Unreadable"]
  by (simp add: server0_def toUpperCase_fixture2 trim_fixture2)

text \<open>
  Claim C1, as stated, fails: the word \<open>AB\<close> is in the artifact, and the query from \<open>AB\<close> to
  \<open>AB\<close> is answered with the no-path-found failure.
\<close>

theorem identity_query_rejected:
  "''AB'' \<in> set (words fixture2) \<and>
   fst (POST (\<lambda>_. Stored fixture2) ''AB'' ''AB'' server0) = Failure NoPathFound"
  by (simp add: POST_eval)

text \<open>
  Claim C1, amended. For a word of the artifact (a key of its graph, in one of its groups, of
  a length between 2 and 15), \<^verbatim>\<open>findShortestPath\<close> from the word to itself returns the
  one-element path, and the route, which rejects every path of fewer than two words, answers
  the query with the no-path-found failure.
\<close>

theorem identity_query:
  assumes "isWord w" "2 \<le> length w" "length w \<le> 15"
    and "fst (loadDictionary fs (length w) s) = Some d"
    and "map_of (graph d) w = Some ns"
    and "(i, grp) \<in> set (groups d)" "w \<in> set grp"
  shows "findShortestPath w w (graph d) = Some [w] \<and> fst (POST fs w w s) = Failure NoPathFound"
proof -
  from assms(1) have up: "toUpperCase w = w" and tr: "trim w = w" and ne: "w \<noteq> []"
    by (simp_all add: toUpperCase_isWord trim_isWord) (auto simp: isWord_def)
  from assms(5) up have search: "findShortestPath w w (graph d) = Some [w]"
    by (simp add: findShortestPath_def)
  from assms(6,7) up have same: "areInSameGroup w w (groups d)"
    unfolding areInSameGroup_iff by force
  obtain s' where load: "loadDictionary fs (length w) s = (Some d, s')"
    using assms(4) by (cases "loadDictionary fs (length w) s") simp
  have "fst (POST fs w w s) = Failure NoPathFound"
    using ne assms(2,3,5) same search load by (simp add: POST_def up tr)
  with search show ?thesis by simp
qed

text \<open>The amended claim at the word \<open>AB\<close>.\<close>

theorem identity_query_witness:
  "findShortestPath ''AB'' ''AB'' (graph fixture2) = Some [''AB''] \<and>
   fst (POST (\<lambda>_. Stored fixture2) ''AB'' ''AB'' server0) = Failure NoPathFound"
  using identity_query [of "''AB''" "\<lambda>_. Stored fixture2" server0 fixture2 "[''AC'']" 0 "[''AB'', ''AC'']"]
  by (simp add: isWord_fixture2 loadDictionary_def server0_def) (simp add: fixture2_def)

text \<open>
  Claim C7. A query whose two words are in the word list of the loaded artifact (an artifact
  that has a graph entry for each of its words, as the preprocessing script writes it) and
  that no group holds together is answered with the not-connected failure, and the count of
  shortest-path searches is what it was before the request.
\<close>

theorem disjoint_groups_no_search:
  assumes "startWord \<noteq> []" "endWord \<noteq> []"
    and "start = trim (toUpperCase startWord)" "endW = trim (toUpperCase endWord)"
    and "length start = length endW" "2 \<le> length start" "length start \<le> 15"
    and "loadDictionary fs (length start) s = (Some d, s')"
    and "set (words d) \<subseteq> fst ` set (graph d)"
    and "start \<in> set (words d)" "endW \<in> set (words d)"
    and "\<forall>grp \<in> snd ` set (groups d). \<not> (start \<in> set grp \<and> endW \<in> set grp)"
  shows "POST fs startWord endWord s = (Failure NotConnected, s') \<and> searches s' = searches s"
proof -
  have keys: "map_of (graph d) start \<noteq> None" "map_of (graph d) endW \<noteq> None"
    using assms(9,10,11) by (auto simp: map_of_eq_None_iff)
  have "toUpperCase start = start" "toUpperCase endW = endW"
    using assms(3,4) by (simp_all add: toUpperCase_trim_upper)
  with assms(12) have "\<not> areInSameGroup start endW (groups d)"
    by (simp add: areInSameGroup_iff)
  with keys assms(1-8) have "POST fs startWord endWord s = (Failure NotConnected, s')"
    by (simp add: POST_def Let_def)
  moreover have "searches s' = searches s"
    using loadDictionary_searches [of fs "length start" s] assms(8) by simp
  ultimately show ?thesis by simp
qed

text \<open>The claim at two words of different groups.\<close>

theorem disjoint_groups_no_search_witness:
  "fst (POST (\<lambda>_. Stored fixture2) ''AB'' ''XY'' server0) = Failure NotConnected \<and>
   searches (snd (POST (\<lambda>_. Stored fixture2) ''AB'' ''XY'' server0)) = searches server0"
proof -
  let ?s' = "snd (loadDictionary (\<lambda>_. Stored fixture2) (length ''AB'') server0)"
  have load: "loadDictionary (\<lambda>_. Stored fixture2) (length ''AB'') server0 = (Some fixture2, ?s')"
    by (simp add: loadDictionary_def server0_def)
  have "POST (\<lambda>_. Stored fixture2) ''AB'' ''XY'' server0 = (Failure NotConnected, ?s') \<and>
        searches ?s' = searches server0"
  proof (rule disjoint_groups_no_search [where start = "''AB''" and endW = "''XY''" and d = fixture2])
    show "loadDictionary (\<lambda>_. Stored fixture2) (length ''AB'') server0 = (Some fixture2, ?s')"
      by (rule load)
  qed (simp_all add: toUpperCase_fixture2 trim_fixture2 fixture2_def)
  then show ?thesis by simp
qed

section \<open>Breadth-first search\<close>

lemma walk_single: "walk nb s s [s]"
  by (simp add: walk_def)

lemma walk_length: "walk nb s t p \<Longrightarrow> 1 \<le> length p"
  by (cases p) (simp_all add: walk_def)

lemma walk_one: "walk nb s t p \<Longrightarrow> length p \<le> 1 \<Longrightarrow> t = s"
  by (cases p) (simp_all add: walk_def)

lemma walk_snoc: "walk nb s w p \<Longrightarrow> n \<in> set (nb w) \<Longrightarrow> walk nb s n (p @ [n])"
  by (simp add: walk_def successively_append_iff)

lemma walk_butlast:
  assumes "walk nb s t q" "2 \<le> length q"
  shows "walk nb s (last (butlast q)) (butlast q) \<and> t \<in> set (nb (last (butlast q)))"
proof -
  from assms(1) have ne: "q \<noteq> []" by (simp add: walk_def)
  from assms(2) have bne: "butlast q \<noteq> []" by (cases q) (auto split: if_splits)
  have q: "q = butlast q @ [last q]" using ne by simp
  from assms(1) have "successively (\<lambda>u v. v \<in> set (nb u)) (butlast q @ [last q])"
    using q by (simp add: walk_def)
  then have s: "successively (\<lambda>u v. v \<in> set (nb u)) (butlast q)"
    and e: "last q \<in> set (nb (last (butlast q)))"
    using bne by (simp_all add: successively_append_iff)
  have "hd (butlast q) = hd q" using bne q by (metis hd_append2)
  with assms(1) s e bne show ?thesis by (simp add: walk_def)
qed

lemma bfs_inv_init: "bfs_inv nb s e K {s} [(s, [s])]"
proof -
  have "inv_paths nb s K {s} [(s, [s])]"
    using walk_length [of nb s s] by (auto simp: inv_paths_def walk_single)
  moreover have "inv_order [(s, [s])]" by (simp add: inv_order_def)
  moreover have "inv_done nb s e K {s} [(s, [s])]" by (simp add: inv_done_def)
  moreover have "inv_front nb s K {s} [(s, [s])]"
    using walk_one [of nb s] by (auto simp: inv_front_def)
  ultimately show ?thesis by (simp add: bfs_inv_def)
qed

lemma snd_fold_visit:
  "\<exists>ms. snd (fold (visit p) ns st) = snd st @ map (\<lambda>n. (n, p @ [n])) ms \<and> set ms = set ns - fst st"
proof (induction ns arbitrary: st)
  case Nil
  show ?case by (rule exI [of _ "[]"]) simp
next
  case (Cons n ns)
  show ?case
  proof (cases "n \<in> fst st")
    case True
    then have v: "visit p n st = st" by (simp add: visit_def)
    from Cons.IH [of st] obtain ms where
      "snd (fold (visit p) ns st) = snd st @ map (\<lambda>n. (n, p @ [n])) ms" "set ms = set ns - fst st"
      by blast
    with True v show ?thesis by (intro exI [of _ ms]) auto
  next
    case False
    let ?st = "(insert n (fst st), snd st @ [(n, p @ [n])])"
    from False have v: "visit p n st = ?st" by (simp add: visit_def)
    from Cons.IH [of ?st] obtain ms where
      ms: "snd (fold (visit p) ns ?st) = snd ?st @ map (\<lambda>n. (n, p @ [n])) ms"
        "set ms = set ns - fst ?st"
      by blast
    show ?thesis
    proof (intro exI [of _ "n # ms"] conjI)
      show "snd (fold (visit p) (n # ns) st) = snd st @ map (\<lambda>n. (n, p @ [n])) (n # ms)"
        using ms(1) v by simp
      show "set (n # ms) = set (n # ns) - fst st"
        using ms(2) False by auto
    qed
  qed
qed

lemma sorted_hd_min: "sorted (map f xs) \<Longrightarrow> x \<in> set xs \<Longrightarrow> f (hd xs) \<le> f x"
  by (cases xs) auto

lemma sorted_const: "sorted (map (\<lambda>n. c :: nat) ms)"
  by (induction ms) auto

lemma bfs_inv_expand:
  assumes inv: "bfs_inv nb s e K V ((w, p) # Q)" and ne: "w \<noteq> e"
  shows "bfs_inv nb s e K (fst (fold (visit p) (nb w) (V, Q))) (snd (fold (visit p) (nb w) (V, Q)))"
proof -
  define V' where "V' = fst (fold (visit p) (nb w) (V, Q))"
  define Q' where "Q' = snd (fold (visit p) (nb w) (V, Q))"
  define L where "L = length p"
  have V': "V' = V \<union> set (nb w)" by (simp add: V'_def fst_fold_visit)
  obtain ms where Q': "Q' = Q @ map (\<lambda>n. (n, p @ [n])) ms" and ms: "set ms = set (nb w) - V"
    using snd_fold_visit [of p "nb w" "(V, Q)"] unfolding Q'_def by auto
  from inv have sV: "s \<in> V"
    and P: "inv_paths nb s K V ((w, p) # Q)"
    and O: "inv_order ((w, p) # Q)"
    and D: "inv_done nb s e K V ((w, p) # Q)"
    and F: "inv_front nb s K V ((w, p) # Q)"
    by (simp_all add: bfs_inv_def)
  from P have wp: "walk nb s w p"
    and wmin: "\<And>q. walk nb s w q \<Longrightarrow> length q \<le> K \<Longrightarrow> L \<le> length q"
    and PQ: "\<And>x. x \<in> set Q \<Longrightarrow> walk nb s (fst x) (snd x) \<and> fst x \<in> V \<and>
               (\<forall>q. walk nb s (fst x) q \<longrightarrow> length q \<le> K \<longrightarrow> length (snd x) \<le> length q)"
    by (simp_all add: inv_paths_def L_def)
  from O have sortedQ: "sorted (map (\<lambda>x. length (snd x)) Q)"
    and lowQ: "\<And>x. x \<in> set Q \<Longrightarrow> L \<le> length (snd x)"
    and highQ: "\<And>x. x \<in> set Q \<Longrightarrow> length (snd x) \<le> Suc L"
    by (auto simp: inv_order_def L_def)
  from F have front: "\<And>q v. walk nb s v q \<Longrightarrow> length q \<le> L \<Longrightarrow> length q \<le> K \<Longrightarrow> v \<in> V"
    by (simp add: inv_front_def L_def)
  have msD: "\<And>n. n \<in> set ms \<Longrightarrow> n \<in> set (nb w) \<and> n \<notin> V" using ms by blast
  have msI: "\<And>n. n \<in> set (nb w) \<Longrightarrow> n \<notin> V \<Longrightarrow> n \<in> set ms" using ms by blast
  have split: "\<And>x. x \<in> set Q' \<Longrightarrow> x \<in> set Q \<or> (\<exists>n \<in> set ms. x = (n, p @ [n]))"
    unfolding Q' by auto
  have newQ: "fst x \<in> set (nb w) \<and> fst x \<notin> V \<and> snd x = p @ [fst x]"
    if "x \<in> set (map (\<lambda>n. (n, p @ [n])) ms)" for x
  proof -
    from that obtain n where "n \<in> set ms" "x = (n, p @ [n])" by auto
    with msD [of n] show ?thesis by simp
  qed
  have low': "L \<le> length (snd x)" if "x \<in> set Q'" for x
  proof -
    from split [OF that] show ?thesis
    proof
      assume "x \<in> set Q" then show ?thesis by (rule lowQ)
    next
      assume "\<exists>n \<in> set ms. x = (n, p @ [n])"
      then show ?thesis by (auto simp: L_def)
    qed
  qed
  have high': "length (snd x) \<le> Suc L" if "x \<in> set Q'" for x
  proof -
    from split [OF that] show ?thesis
    proof
      assume "x \<in> set Q" then show ?thesis by (rule highQ)
    next
      assume "\<exists>n \<in> set ms. x = (n, p @ [n])"
      then show ?thesis by (auto simp: L_def)
    qed
  qed
  have paths': "inv_paths nb s K V' Q'"
    unfolding inv_paths_def
  proof
    fix x assume "x \<in> set Q'"
    then consider "x \<in> set Q" | "x \<in> set (map (\<lambda>n. (n, p @ [n])) ms)"
      unfolding Q' by auto
    then show "walk nb s (fst x) (snd x) \<and> fst x \<in> V' \<and>
        (\<forall>q. walk nb s (fst x) q \<longrightarrow> length q \<le> K \<longrightarrow> length (snd x) \<le> length q)"
    proof cases
      case 1
      with PQ [of x] show ?thesis by (simp add: V')
    next
      case 2
      from newQ [OF 2] have n: "fst x \<in> set (nb w)" "fst x \<notin> V" "snd x = p @ [fst x]"
        by simp_all
      have "walk nb s (fst x) (snd x)" using walk_snoc [OF wp n(1)] n(3) by simp
      moreover have "fst x \<in> V'" using n(1) by (simp add: V')
      moreover have "length (snd x) \<le> length q" if "walk nb s (fst x) q" "length q \<le> K" for q
      proof (rule ccontr)
        assume "\<not> length (snd x) \<le> length q"
        then have "length q \<le> L" using n(3) by (simp add: L_def)
        from front [OF that(1) this that(2)] n(2) show False by simp
      qed
      ultimately show ?thesis by blast
    qed
  qed
  have order': "inv_order Q'"
    unfolding inv_order_def
  proof
    have "sorted (map (\<lambda>x. length (snd x)) (map (\<lambda>n. (n, p @ [n])) ms))"
      by (simp add: comp_def sorted_const)
    moreover have "\<forall>a \<in> set Q. \<forall>b \<in> set (map (\<lambda>n. (n, p @ [n])) ms). length (snd a) \<le> length (snd b)"
    proof (intro ballI)
      fix a b assume "a \<in> set Q" "b \<in> set (map (\<lambda>n. (n, p @ [n])) ms)"
      with highQ [of a] newQ [of b] show "length (snd a) \<le> length (snd b)"
        by (simp add: L_def)
    qed
    ultimately show "sorted (map (\<lambda>x. length (snd x)) Q')"
      using sortedQ unfolding Q' by (simp add: sorted_append)
    show "\<forall>x \<in> set Q'. length (snd x) \<le> Suc (length (snd (hd Q')))"
    proof
      fix x assume x: "x \<in> set Q'"
      then have "Q' \<noteq> []" by auto
      then have "hd Q' \<in> set Q'" by simp
      from low' [OF this] high' [OF x] show "length (snd x) \<le> Suc (length (snd (hd Q')))"
        by simp
    qed
  qed
  have done': "inv_done nb s e K V' Q'"
    unfolding inv_done_def
  proof (intro allI impI)
    fix u assume u: "u \<in> V'" "u \<notin> fst ` set Q'"
    have uV: "u \<in> V"
    proof (rule ccontr)
      assume "u \<notin> V"
      with u(1) have "u \<in> set ms" by (simp add: V' ms)
      then have "u \<in> fst ` set Q'" unfolding Q' by force
      with u(2) show False by simp
    qed
    from u(2) have uQ: "u \<notin> fst ` set Q" unfolding Q' by auto
    show "u \<noteq> e \<and> (\<forall>q. walk nb s u q \<longrightarrow> length q < K \<longrightarrow> set (nb u) \<subseteq> V')"
    proof (cases "u = w")
      case True
      with ne show ?thesis by (simp add: V')
    next
      case False
      with uQ have "u \<notin> fst ` set ((w, p) # Q)" by simp
      with D uV have "u \<noteq> e \<and> (\<forall>q. walk nb s u q \<longrightarrow> length q < K \<longrightarrow> set (nb u) \<subseteq> V)"
        unfolding inv_done_def by blast
      then show ?thesis unfolding V' by blast
    qed
  qed
  have front': "inv_front nb s K V' Q'"
    unfolding inv_front_def
  proof (intro allI impI)
    fix q v
    assume Qne: "Q' \<noteq> []" and q: "walk nb s v q" and le: "length q \<le> length (snd (hd Q'))"
      and leK: "length q \<le> K"
    from Qne have hdin: "hd Q' \<in> set Q'" by simp
    show "v \<in> V'"
    proof (cases "length q \<le> L")
      case True
      from front [OF q True leK] show ?thesis by (simp add: V')
    next
      case False
      with le high' [OF hdin] have len: "length q = Suc L" and hdL: "length (snd (hd Q')) = Suc L"
        by simp_all
      have "1 \<le> L" using walk_length [OF wp] by (simp add: L_def)
      with len have "2 \<le> length q" by simp
      from walk_butlast [OF q this] have q0: "walk nb s (last (butlast q)) (butlast q)"
        and edge: "v \<in> set (nb (last (butlast q)))" by simp_all
      define u where "u = last (butlast q)"
      have len0: "length (butlast q) = L" using len by simp
      with leK len have lt: "length (butlast q) < K" by simp
      have uV: "u \<in> V" using front [OF q0] len0 lt by (simp add: u_def)
      have "u \<notin> fst ` set Q'"
      proof
        assume "u \<in> fst ` set Q'"
        then obtain x where x: "x \<in> set Q'" "fst x = u" by auto
        from order' have "sorted (map (\<lambda>x. length (snd x)) Q')" by (simp add: inv_order_def)
        from sorted_hd_min [OF this x(1)] have "length (snd (hd Q')) \<le> length (snd x)" .
        moreover from paths' x q0 lt have "length (snd x) \<le> length (butlast q)"
          unfolding inv_paths_def u_def by (metis less_imp_le_nat)
        ultimately show False using hdL len0 by simp
      qed
      with done' uV have "set (nb u) \<subseteq> V'"
        using q0 lt unfolding inv_done_def u_def V' by (metis UnI1)
      with edge show ?thesis by (auto simp: u_def)
    qed
  qed
  from sV paths' order' done' front' show ?thesis
    unfolding V'_def [symmetric] Q'_def [symmetric] by (simp add: bfs_inv_def V')
qed

lemma bfs_inv_skip:
  assumes inv: "bfs_inv nb s e K V ((w, p) # Q)" and ne: "w \<noteq> e" and cut: "K \<le> length p"
  shows "bfs_inv nb s e K V Q"
proof -
  define L where "L = length p"
  from inv have sV: "s \<in> V"
    and P: "inv_paths nb s K V ((w, p) # Q)"
    and O: "inv_order ((w, p) # Q)"
    and D: "inv_done nb s e K V ((w, p) # Q)"
    and F: "inv_front nb s K V ((w, p) # Q)"
    by (simp_all add: bfs_inv_def)
  from P have wmin: "\<And>q. walk nb s w q \<Longrightarrow> length q \<le> K \<Longrightarrow> L \<le> length q"
    and paths': "inv_paths nb s K V Q"
    by (simp_all add: inv_paths_def L_def)
  from O have sortedQ: "sorted (map (\<lambda>x. length (snd x)) Q)"
    and lowQ: "\<And>x. x \<in> set Q \<Longrightarrow> L \<le> length (snd x)"
    and highQ: "\<And>x. x \<in> set Q \<Longrightarrow> length (snd x) \<le> Suc L"
    by (auto simp: inv_order_def L_def)
  from F have front: "\<And>q v. walk nb s v q \<Longrightarrow> length q \<le> L \<Longrightarrow> length q \<le> K \<Longrightarrow> v \<in> V"
    by (simp add: inv_front_def L_def)
  have order': "inv_order Q"
    unfolding inv_order_def
  proof
    show "sorted (map (\<lambda>x. length (snd x)) Q)" by (rule sortedQ)
    show "\<forall>x \<in> set Q. length (snd x) \<le> Suc (length (snd (hd Q)))"
    proof
      fix x assume x: "x \<in> set Q"
      then have "hd Q \<in> set Q" by (cases Q) auto
      from lowQ [OF this] highQ [OF x] show "length (snd x) \<le> Suc (length (snd (hd Q)))"
        by simp
    qed
  qed
  have done': "inv_done nb s e K V Q"
    unfolding inv_done_def
  proof (intro allI impI)
    fix u assume u: "u \<in> V" "u \<notin> fst ` set Q"
    show "u \<noteq> e \<and> (\<forall>q. walk nb s u q \<longrightarrow> length q < K \<longrightarrow> set (nb u) \<subseteq> V)"
    proof (cases "u = w")
      case True
      have "\<not> (walk nb s u q \<and> length q < K)" for q
      proof
        assume a: "walk nb s u q \<and> length q < K"
        with wmin [of q] True have "L \<le> length q" by simp
        with a cut show False by (simp add: L_def)
      qed
      with True ne show ?thesis by blast
    next
      case False
      with u(2) have "u \<notin> fst ` set ((w, p) # Q)" by simp
      with D u(1) show ?thesis unfolding inv_done_def by blast
    qed
  qed
  have front': "inv_front nb s K V Q"
    unfolding inv_front_def
  proof (intro allI impI)
    fix q v
    assume "walk nb s v q" "length q \<le> K"
    with cut front [of v q] show "v \<in> V" by (simp add: L_def)
  qed
  from sV paths' order' done' front' show ?thesis by (simp add: bfs_inv_def)
qed

lemma bfs_inv_found:
  assumes "bfs_inv nb s e K V ((e, p) # Q)"
  shows "walk nb s e p" and "\<And>q. walk nb s e q \<Longrightarrow> length q \<le> K \<Longrightarrow> length p \<le> length q"
  using assms by (simp_all add: bfs_inv_def inv_paths_def)

lemma bfs_inv_exhausted:
  assumes inv: "bfs_inv nb s e K V []" and q: "walk nb s t q" and le: "length q \<le> K"
  shows "t \<in> V \<and> t \<noteq> e"
proof -
  from inv have sV: "s \<in> V" and D: "inv_done nb s e K V []" by (simp_all add: bfs_inv_def)
  have "t \<in> V" using q le
  proof (induction "length q" arbitrary: q t)
    case 0
    then show ?case by (simp add: walk_def)
  next
    case (Suc n)
    show ?case
    proof (cases "2 \<le> length q")
      case False
      with Suc.prems(1) walk_one [of nb s t q] sV show ?thesis by simp
    next
      case True
      from walk_butlast [OF Suc.prems(1) True]
      have q0: "walk nb s (last (butlast q)) (butlast q)" and edge: "t \<in> set (nb (last (butlast q)))"
        by simp_all
      have len: "n = length (butlast q)" using Suc.hyps(2) by simp
      have lt: "length (butlast q) < K" using Suc.prems(2) Suc.hyps(2) by simp
      from Suc.hyps(1) [OF len q0] lt have "last (butlast q) \<in> V" by simp
      with D q0 lt have "set (nb (last (butlast q))) \<subseteq> V"
        unfolding inv_done_def by (metis empty_iff image_empty list.set(1))
      with edge show ?thesis by blast
    qed
  qed
  moreover from this D have "t \<noteq> e" unfolding inv_done_def by auto
  ultimately show ?thesis by simp
qed

text \<open>The search of \<^verbatim>\<open>findShortestPath\<close>.\<close>

lemma bfs_sound:
  "bfs_inv (neighborsOf g) s e K V Q \<Longrightarrow> bfs g e V Q = Some p \<Longrightarrow> walk (neighborsOf g) s e p"
proof (induction g e V Q rule: bfs.induct)
  case (1 g endW visited)
  then show ?case by simp
next
  case (2 g endW visited word path queue)
  show ?case
  proof (cases "word = endW")
    case True
    with "2.prems" bfs_inv_found(1) [of "neighborsOf g" s endW K visited p queue]
    show ?thesis by simp
  next
    case False
    from bfs_inv_expand [OF _ False] "2.prems"(1)
    have "bfs_inv (neighborsOf g) s endW K
            (fst (fold (visit path) (neighborsOf g word) (visited, queue)))
            (snd (fold (visit path) (neighborsOf g word) (visited, queue)))"
      by blast
    from "2.IH" [OF False this] "2.prems"(2) False show ?thesis by simp
  qed
qed

lemma bfs_shortest:
  "bfs_inv (neighborsOf g) s e K V Q \<Longrightarrow> walk (neighborsOf g) s e q \<Longrightarrow> length q \<le> K \<Longrightarrow>
     \<exists>p. bfs g e V Q = Some p \<and> length p \<le> length q"
proof (induction g e V Q rule: bfs.induct)
  case (1 g endW visited)
  from bfs_inv_exhausted [OF "1.prems"] show ?case by simp
next
  case (2 g endW visited word path queue)
  show ?case
  proof (cases "word = endW")
    case True
    with "2.prems" bfs_inv_found(2) [of "neighborsOf g" s endW K visited path queue q]
    show ?thesis by simp
  next
    case False
    from bfs_inv_expand [OF _ False] "2.prems"(1)
    have "bfs_inv (neighborsOf g) s endW K
            (fst (fold (visit path) (neighborsOf g word) (visited, queue)))
            (snd (fold (visit path) (neighborsOf g word) (visited, queue)))"
      by blast
    from "2.IH" [OF False this "2.prems"(2,3)] False show ?thesis by simp
  qed
qed

section \<open>The shortest path\<close>

lemma graph_distance_eq:
  assumes "walk nb s t p" and "\<And>q. walk nb s t q \<Longrightarrow> length p \<le> length q"
  shows "length p = Suc (graph_distance nb s t)"
proof -
  from assms(1) have "1 \<le> length p" by (rule walk_length)
  then obtain d where d: "length p = Suc d" by (cases "length p") simp_all
  have "(LEAST d. \<exists>q. walk nb s t q \<and> length q = Suc d) = d"
  proof (rule Least_equality)
    show "\<exists>q. walk nb s t q \<and> length q = Suc d" using assms(1) d by blast
    fix y assume "\<exists>q. walk nb s t q \<and> length q = Suc y"
    then obtain q where "walk nb s t q" "length q = Suc y" by blast
    with assms(2) [of q] d show "d \<le> y" by simp
  qed
  with d show ?thesis by (simp add: graph_distance_def)
qed

lemma findShortestPath_walk:
  assumes "findShortestPath startWord endWord g = Some p"
  shows "walk (neighborsOf g) (toUpperCase startWord) (toUpperCase endWord) p"
proof (cases "toUpperCase startWord = toUpperCase endWord")
  case True
  with assms have "p = [toUpperCase startWord]"
    by (simp add: findShortestPath_def Let_def split: if_splits)
  with True show ?thesis by (simp add: walk_def)
next
  case False
  with assms have "bfs g (toUpperCase endWord) {toUpperCase startWord}
      [(toUpperCase startWord, [toUpperCase startWord])] = Some p"
    by (simp add: findShortestPath_def Let_def split: if_splits)
  from bfs_sound [OF bfs_inv_init this] show ?thesis .
qed

lemma findShortestPath_le:
  assumes "map_of g (toUpperCase startWord) \<noteq> None" "map_of g (toUpperCase endWord) \<noteq> None"
    and "walk (neighborsOf g) (toUpperCase startWord) (toUpperCase endWord) q"
  shows "\<exists>p. findShortestPath startWord endWord g = Some p \<and> length p \<le> length q"
proof (cases "toUpperCase startWord = toUpperCase endWord")
  case True
  with assms(1,2) have "findShortestPath startWord endWord g = Some [toUpperCase startWord]"
    by (simp add: findShortestPath_def Let_def)
  with walk_length [OF assms(3)] show ?thesis by simp
next
  case False
  from bfs_shortest [OF bfs_inv_init assms(3) order_refl]
  obtain p where "bfs g (toUpperCase endWord) {toUpperCase startWord}
      [(toUpperCase startWord, [toUpperCase startWord])] = Some p" "length p \<le> length q"
    by blast
  with False assms(1,2) show ?thesis by (simp add: findShortestPath_def Let_def)
qed

text \<open>
  Claim C2. When both words (in upper case) are keys of the graph and some walk leads from the
  start to the end, \<^verbatim>\<open>findShortestPath\<close> returns a walk from the start to the end that no
  walk between them undercuts: its number of words is the distance plus one.
\<close>

theorem findShortestPath_shortest:
  assumes "map_of g (toUpperCase startWord) \<noteq> None" "map_of g (toUpperCase endWord) \<noteq> None"
    and "walk (neighborsOf g) (toUpperCase startWord) (toUpperCase endWord) q"
  shows "\<exists>p. findShortestPath startWord endWord g = Some p \<and>
           walk (neighborsOf g) (toUpperCase startWord) (toUpperCase endWord) p \<and>
           (\<forall>q'. walk (neighborsOf g) (toUpperCase startWord) (toUpperCase endWord) q'
                  \<longrightarrow> length p \<le> length q') \<and>
           length p = graph_distance (neighborsOf g) (toUpperCase startWord) (toUpperCase endWord) + 1"
proof -
  from findShortestPath_le [OF assms] obtain p where
    p: "findShortestPath startWord endWord g = Some p" by blast
  have w: "walk (neighborsOf g) (toUpperCase startWord) (toUpperCase endWord) p"
    using p by (rule findShortestPath_walk)
  have m: "length p \<le> length q'"
    if "walk (neighborsOf g) (toUpperCase startWord) (toUpperCase endWord) q'" for q'
    using findShortestPath_le [OF assms(1,2) that] p by simp
  from graph_distance_eq [OF w m] p w m show ?thesis by simp
qed

lemma isWord_fixture3: "isWord ''CAT''" "isWord ''DOG''"
  by (simp_all add: isWord_def letters_def)

lemma findShortestPath_fixture3:
  "findShortestPath ''CAT'' ''DOG'' fixture3 = Some [''CAT'', ''COT'', ''COG'', ''DOG'']"
  by (simp add: findShortestPath_def toUpperCase_isWord isWord_fixture3 fixture3_def
      neighborsOf_def visit_def)

text \<open>The claim on a six-word graph: from \<open>CAT\<close> to \<open>DOG\<close> in three steps.\<close>

theorem findShortestPath_shortest_witness:
  "findShortestPath ''CAT'' ''DOG'' fixture3 = Some [''CAT'', ''COT'', ''COG'', ''DOG''] \<and>
   graph_distance (neighborsOf fixture3) ''CAT'' ''DOG'' = 3"
proof -
  have up: "toUpperCase ''CAT'' = ''CAT''" "toUpperCase ''DOG'' = ''DOG''"
    by (simp_all add: toUpperCase_isWord isWord_fixture3)
  have keys: "map_of fixture3 ''CAT'' \<noteq> None" "map_of fixture3 ''DOG'' \<noteq> None"
    by (simp_all add: fixture3_def)
  have w: "walk (neighborsOf fixture3) ''CAT'' ''DOG'' [''CAT'', ''COT'', ''COG'', ''DOG'']"
    by (simp add: walk_def neighborsOf_def fixture3_def)
  from findShortestPath_shortest
    [of fixture3 "''CAT''" "''DOG''" "[''CAT'', ''COT'', ''COG'', ''DOG'']", unfolded up, OF keys w]
  have "\<exists>p. findShortestPath ''CAT'' ''DOG'' fixture3 = Some p \<and>
          length p = graph_distance (neighborsOf fixture3) ''CAT'' ''DOG'' + 1"
    by blast
  then show ?thesis by (simp add: findShortestPath_fixture3)
qed

section \<open>Facts about one-letter differences\<close>

lemma mismatches_Nil [simp]: "mismatches [] b = 0" "mismatches a [] = 0"
  by (simp_all add: mismatches_def)

lemma mismatches_Cons [simp]:
  "mismatches (x # a) (y # b) = (if x \<noteq> y then 1 else 0) + mismatches a b"
  by (simp add: mismatches_def)

lemma mismatches_same [simp]: "mismatches a a = 0"
  by (induction a) simp_all

lemma mismatches_sym: "mismatches a b = mismatches b a"
proof (induction a arbitrary: b)
  case Nil
  show ?case by simp
next
  case (Cons x a)
  show ?case
  proof (cases b)
    case Nil
    then show ?thesis by simp
  next
    case (Cons y b')
    with Cons.IH [of b'] show ?thesis by auto
  qed
qed

lemma mismatches_append:
  "length a = length a' \<Longrightarrow> mismatches (a @ b) (a' @ b') = mismatches a a' + mismatches b b'"
  by (induction a a' rule: list_induct2) simp_all

lemma mismatches_0_eq: "length a = length b \<Longrightarrow> mismatches a b = 0 \<Longrightarrow> a = b"
  by (induction a b rule: list_induct2) (simp_all split: if_splits)

lemma oneLetterApart_sym: "oneLetterApart a b = oneLetterApart b a"
  using mismatches_sym [of a b] by (auto simp: oneLetterApart_def)

lemma oneLetterApart_irrefl: "\<not> oneLetterApart a a"
  by (simp add: oneLetterApart_def)

lemma oneLetterApart_position:
  "oneLetterApart a b \<longleftrightarrow>
     a \<noteq> b \<and> length a = length b \<and>
     (\<exists>i < length a. take i b = take i a \<and> drop (Suc i) b = drop (Suc i) a)"
proof
  assume "oneLetterApart a b"
  then have len: "length a = length b" and one: "mismatches a b = 1"
    by (simp_all add: oneLetterApart_def)
  from len one have "\<exists>i < length a. take i b = take i a \<and> drop (Suc i) b = drop (Suc i) a"
  proof (induction a b rule: list_induct2)
    case Nil
    then show ?case by simp
  next
    case (Cons x a y b)
    show ?case
    proof (cases "x = y")
      case True
      with Cons.prems have "mismatches a b = 1" by simp
      from Cons.IH [OF this] obtain i where
        "i < length a" "take i b = take i a" "drop (Suc i) b = drop (Suc i) a" by blast
      with True show ?thesis by (intro exI [of _ "Suc i"]) simp
    next
      case False
      with Cons.prems have "mismatches a b = 0" by simp
      with Cons.hyps have "a = b" by (rule mismatches_0_eq)
      then show ?thesis by (intro exI [of _ 0]) simp
    qed
  qed
  moreover from one have "a \<noteq> b" by auto
  ultimately show "a \<noteq> b \<and> length a = length b \<and>
     (\<exists>i < length a. take i b = take i a \<and> drop (Suc i) b = drop (Suc i) a)"
    using len by simp
next
  assume r: "a \<noteq> b \<and> length a = length b \<and>
     (\<exists>i < length a. take i b = take i a \<and> drop (Suc i) b = drop (Suc i) a)"
  then obtain i where i: "i < length a" "take i b = take i a" "drop (Suc i) b = drop (Suc i) a"
    and len: "length a = length b" and ne: "a \<noteq> b" by blast
  have a: "a = take i a @ a ! i # drop (Suc i) a" using i(1) by (rule id_take_nth_drop)
  have "b = take i b @ b ! i # drop (Suc i) b" using i(1) len by (intro id_take_nth_drop) simp
  with i have b: "b = take i a @ b ! i # drop (Suc i) a" by simp
  from a b ne have "a ! i \<noteq> b ! i" by metis
  have "mismatches a b = mismatches (take i a @ a ! i # drop (Suc i) a) (take i a @ b ! i # drop (Suc i) a)"
    using a b by metis
  also have "\<dots> = 1" using \<open>a ! i \<noteq> b ! i\<close> by (simp add: mismatches_append)
  finally show "oneLetterApart a b" using len by (simp add: oneLetterApart_def)
qed

lemma differLoop_mismatches:
  "length s1 = length s2 \<Longrightarrow> c \<le> 1 \<Longrightarrow>
     differLoop s1 s2 c \<longleftrightarrow> c + mismatches (toUpperCase s1) (toUpperCase s2) = 1"
proof (induction s1 s2 arbitrary: c rule: list_induct2)
  case Nil
  then show ?case by simp
next
  case (Cons x a y b)
  show ?case
  proof (cases "toUpperChar x = toUpperChar y")
    case True
    with Cons.IH [OF Cons.prems] show ?thesis by (simp add: toUpperCase_def)
  next
    case False
    show ?thesis
    proof (cases "c = 0")
      case True
      with False Cons.IH [of 1] show ?thesis by (simp add: toUpperCase_def)
    next
      case False
      with \<open>toUpperChar x \<noteq> toUpperChar y\<close> show ?thesis by (simp add: toUpperCase_def)
    qed
  qed
qed

lemma differByOne_iff:
  "differByOne a b \<longleftrightarrow> oneLetterApart (toUpperCase a) (toUpperCase b)"
  using differLoop_mismatches [of a b 0]
  by (auto simp: differByOne_def oneLetterApart_def length_toUpperCase)

lemma differByOne_words: "isWord a \<Longrightarrow> isWord b \<Longrightarrow> differByOne a b = oneLetterApart a b"
  by (simp add: differByOne_iff toUpperCase_isWord)

section \<open>Facts about the graph builder\<close>

lemma wordsInPattern_pushWord:
  "wordsInPattern (pushWord k w m) pat =
     (if pat = k then wordsInPattern m pat @ [w] else wordsInPattern m pat)"
  by (simp add: wordsInPattern_def pushWord_def map_of_map_default split: option.splits)

lemma set_fold_pushWord:
  "set (wordsInPattern (fold (\<lambda>i. pushWord (pattern word i) word) is m) pat) =
     set (wordsInPattern m pat) \<union> {w. w = word \<and> (\<exists>i \<in> set is. pattern word i = pat)}"
proof (induction "is" arbitrary: m)
  case Nil
  show ?case by simp
next
  case (Cons i "is")
  show ?case
    unfolding fold_Cons comp_apply Cons.IH [of "pushWord (pattern word i) word m"]
    by (auto simp: wordsInPattern_pushWord)
qed

lemma set_fold_words:
  "set (wordsInPattern
         (fold (\<lambda>word. fold (\<lambda>i. pushWord (pattern word i) word) [0..<length word]) ws m) pat) =
     set (wordsInPattern m pat) \<union> {w \<in> set ws. \<exists>i < length w. pattern w i = pat}"
proof (induction ws arbitrary: m)
  case Nil
  show ?case by simp
next
  case (Cons word ws)
  show ?case
    unfolding fold_Cons comp_apply
      Cons.IH [of "fold (\<lambda>i. pushWord (pattern word i) word) [0..<length word] m"]
      set_fold_pushWord
    by auto
qed

lemma set_buildPatternMap:
  "set (wordsInPattern (buildPatternMap ws) pat) = {w \<in> set ws. \<exists>i < length w. pattern w i = pat}"
  unfolding buildPatternMap_def set_fold_words by (simp add: wordsInPattern_def)

lemma set_setAdd: "set (setAdd x xs) = insert x (set xs)"
  by (auto simp: setAdd_def)

lemma distinct_setAdd: "distinct xs \<Longrightarrow> distinct (setAdd x xs)"
  by (simp add: setAdd_def)

lemma fold_setAdd:
  "set (fold (\<lambda>neighbor ns. if neighbor \<noteq> word then setAdd neighbor ns else ns) bucket acc)
     = set acc \<union> (set bucket - {word}) \<and>
   (distinct acc \<longrightarrow>
      distinct (fold (\<lambda>neighbor ns. if neighbor \<noteq> word then setAdd neighbor ns else ns) bucket acc))"
proof (induction bucket arbitrary: acc)
  case Nil
  show ?case by simp
next
  case (Cons n bucket)
  show ?case
  proof (cases "n = word")
    case True
    with Cons.IH [of acc] show ?thesis by auto
  next
    case False
    with Cons.IH [of "setAdd n acc"] show ?thesis
      by (auto simp: set_setAdd distinct_setAdd)
  qed
qed

lemma fold_buckets:
  "set (fold (\<lambda>i. fold (\<lambda>neighbor ns. if neighbor \<noteq> word then setAdd neighbor ns else ns)
                      (wordsInPattern pm (pattern word i))) is acc)
     = set acc \<union> {n. n \<noteq> word \<and> (\<exists>i \<in> set is. n \<in> set (wordsInPattern pm (pattern word i)))} \<and>
   (distinct acc \<longrightarrow>
      distinct (fold (\<lambda>i. fold (\<lambda>neighbor ns. if neighbor \<noteq> word then setAdd neighbor ns else ns)
                      (wordsInPattern pm (pattern word i))) is acc))"
proof (induction "is" arbitrary: acc)
  case Nil
  show ?case by simp
next
  case (Cons i "is")
  let ?acc = "fold (\<lambda>neighbor ns. if neighbor \<noteq> word then setAdd neighbor ns else ns)
                (wordsInPattern pm (pattern word i)) acc"
  from fold_setAdd [of word "wordsInPattern pm (pattern word i)" acc]
  have a: "set ?acc = set acc \<union> (set (wordsInPattern pm (pattern word i)) - {word})"
    and d: "distinct acc \<longrightarrow> distinct ?acc" by simp_all
  from Cons.IH [of ?acc] a d show ?case
    unfolding fold_Cons comp_apply by auto
qed

lemma set_neighborSet:
  "set (neighborSet pm word)
     = {n. n \<noteq> word \<and> (\<exists>i < length word. n \<in> set (wordsInPattern pm (pattern word i)))}"
  using fold_buckets [of word pm "[0..<length word]" "[]"] by (auto simp: neighborSet_def)

lemma distinct_neighborSet: "distinct (neighborSet pm word)"
  using fold_buckets [of word pm "[0..<length word]" "[]"] by (simp add: neighborSet_def)

lemma map_of_fold_update:
  "map_of (fold (\<lambda>word. AList.update word (f word)) ws g) k
     = (if k \<in> set ws then Some (f k) else map_of g k)"
proof (induction ws arbitrary: g)
  case Nil
  show ?case by simp
next
  case (Cons w ws)
  show ?case
    unfolding fold_Cons comp_apply Cons.IH [of "AList.update w (f w) g"]
    by (simp add: update_conv')
qed

lemma map_of_buildGraph:
  "map_of (buildGraph ws) w
     = (if w \<in> set ws then Some (neighborSet (buildPatternMap ws) w) else None)"
  by (simp add: buildGraph_def map_of_fold_update)

lemma keys_fold_update:
  "map fst (fold (\<lambda>word. AList.update word (f word)) ws g) = fold setAdd ws (map fst g)"
proof (induction ws arbitrary: g)
  case Nil
  show ?case by simp
next
  case (Cons w ws)
  have "map fst (AList.update w (f w) g) = setAdd w (map fst g)"
    by (simp add: update_keys setAdd_def image_iff)
  then show ?case unfolding fold_Cons comp_apply Cons.IH by simp
qed

lemma neighborsOf_buildGraph:
  "set (neighborsOf (buildGraph ws) a)
     = {b \<in> set ws. a \<in> set ws \<and> b \<noteq> a \<and>
          (\<exists>i < length a. \<exists>j < length b. pattern b j = pattern a i)}"
  by (auto simp: neighborsOf_def map_of_buildGraph set_neighborSet set_buildPatternMap)

lemma pattern_eq_iff:
  assumes "CHR ''_'' \<notin> set a" "CHR ''_'' \<notin> set b" "i < length a" "j < length b"
  shows "pattern b j = pattern a i \<longleftrightarrow>
           j = i \<and> length a = length b \<and> take i b = take i a \<and> drop (Suc i) b = drop (Suc i) a"
proof -
  have nd: "CHR ''_'' \<notin> set (drop (Suc j) b)" and nb: "CHR ''_'' \<notin> set (take j b)"
    using assms(2) by (auto dest: in_set_takeD in_set_dropD)
  have "pattern b j = pattern a i \<longleftrightarrow> take j b = take i a \<and> drop (Suc j) b = drop (Suc i) a"
    unfolding pattern_def using append_Cons_eq_iff [OF nb nd, of "take i a" "drop (Suc i) a"] by simp
  also have "\<dots> \<longleftrightarrow> j = i \<and> length a = length b \<and> take i b = take i a \<and> drop (Suc i) b = drop (Suc i) a"
  proof
    assume h: "take j b = take i a \<and> drop (Suc j) b = drop (Suc i) a"
    then have "length (take j b) = length (take i a)" by simp
    with assms(3,4) have ji: "j = i" by simp
    from h have "length (drop (Suc j) b) = length (drop (Suc i) a)" by simp
    with ji assms(3,4) have "length a = length b" by simp
    with h ji show "j = i \<and> length a = length b \<and> take i b = take i a \<and> drop (Suc i) b = drop (Suc i) a"
      by simp
  next
    assume "j = i \<and> length a = length b \<and> take i b = take i a \<and> drop (Suc i) b = drop (Suc i) a"
    then show "take j b = take i a \<and> drop (Suc j) b = drop (Suc i) a" by simp
  qed
  finally show ?thesis .
qed

lemma underscore_not_letter: "CHR ''_'' \<notin> set letters"
  by (simp add: letters_def)

lemma isWord_no_underscore: "isWord w \<Longrightarrow> CHR ''_'' \<notin> set w"
  using underscore_not_letter by (auto simp: isWord_def list_all_iff)

lemma shares_pattern_iff:
  assumes "isWord a" "isWord b"
  shows "b \<noteq> a \<and> (\<exists>i < length a. \<exists>j < length b. pattern b j = pattern a i) \<longleftrightarrow> oneLetterApart a b"
proof -
  note ua = isWord_no_underscore [OF assms(1)] and ub = isWord_no_underscore [OF assms(2)]
  have "(\<exists>i < length a. \<exists>j < length b. pattern b j = pattern a i) \<longleftrightarrow>
        (length a = length b \<and> (\<exists>i < length a. take i b = take i a \<and> drop (Suc i) b = drop (Suc i) a))"
  proof
    assume "\<exists>i < length a. \<exists>j < length b. pattern b j = pattern a i"
    then obtain i j where ij: "i < length a" "j < length b" "pattern b j = pattern a i" by blast
    from pattern_eq_iff [OF ua ub ij(1,2)] ij(3) ij(1)
    show "length a = length b \<and> (\<exists>i < length a. take i b = take i a \<and> drop (Suc i) b = drop (Suc i) a)"
      by blast
  next
    assume r: "length a = length b \<and> (\<exists>i < length a. take i b = take i a \<and> drop (Suc i) b = drop (Suc i) a)"
    then obtain i where i: "i < length a" "take i b = take i a" "drop (Suc i) b = drop (Suc i) a"
      and len: "length a = length b" by blast
    from i(1) len have ib: "i < length b" by simp
    from pattern_eq_iff [OF ua ub i(1) ib] i len have "pattern b i = pattern a i" by simp
    with i(1) ib show "\<exists>i < length a. \<exists>j < length b. pattern b j = pattern a i" by blast
  qed
  then show ?thesis unfolding oneLetterApart_position by blast
qed

lemma buildGraph_adjacent:
  assumes "\<forall>w \<in> set ws. isWord w" "a \<in> set ws" "b \<in> set ws"
  shows "b \<in> set (neighborsOf (buildGraph ws) a) \<longleftrightarrow> oneLetterApart a b"
  using assms shares_pattern_iff [of a b] by (simp add: neighborsOf_buildGraph)

lemma buildGraph_symmetric:
  "b \<in> set (neighborsOf (buildGraph ws) a) \<Longrightarrow> a \<in> set (neighborsOf (buildGraph ws) b)"
  unfolding neighborsOf_buildGraph by (simp, metis)

lemma buildGraph_closed: "b \<in> set (neighborsOf (buildGraph ws) a) \<Longrightarrow> b \<in> set ws \<and> a \<in> set ws"
  unfolding neighborsOf_buildGraph by simp

section \<open>Reachability\<close>

lemma walk_Cons:
  "walk nb s t (x # y # p) \<longleftrightarrow> x = s \<and> y \<in> set (nb x) \<and> walk nb y t (y # p)"
  by (auto simp: walk_def)

lemma walk_reaches: "walk nb s t p \<Longrightarrow> (s, t) \<in> (edges nb)\<^sup>*"
proof (induction p arbitrary: s)
  case Nil
  then show ?case by (simp add: walk_def)
next
  case (Cons x p)
  show ?case
  proof (cases p)
    case Nil
    with Cons.prems have "s = t" by (auto simp: walk_def)
    then show ?thesis by simp
  next
    case (Cons y p')
    with Cons.prems have "walk nb s t (x # y # p')" by simp
    then have "x = s" "y \<in> set (nb x)" "walk nb y t (y # p')"
      unfolding walk_Cons by blast+
    with Cons have "x = s" "y \<in> set (nb x)" "walk nb y t p" by simp_all
    with Cons.IH [of y] have "(s, y) \<in> edges nb" "(y, t) \<in> (edges nb)\<^sup>*"
      by (simp_all add: edges_def)
    then show ?thesis by (rule converse_rtrancl_into_rtrancl)
  qed
qed

lemma reaches_walk: "(s, t) \<in> (edges nb)\<^sup>* \<Longrightarrow> \<exists>p. walk nb s t p"
proof (induction rule: rtrancl_induct)
  case base
  show ?case by (rule exI [of _ "[s]"]) (rule walk_single)
next
  case (step u v)
  then obtain p where "walk nb s u p" by blast
  moreover from step.hyps(2) have "v \<in> set (nb u)" by (simp add: edges_def)
  ultimately have "walk nb s v (p @ [v])" by (rule walk_snoc)
  then show ?case by blast
qed

lemma walk_iff_reaches: "(\<exists>p. walk nb s t p) \<longleftrightarrow> (s, t) \<in> (edges nb)\<^sup>*"
proof
  assume "\<exists>p. walk nb s t p"
  then obtain p where "walk nb s t p" ..
  then show "(s, t) \<in> (edges nb)\<^sup>*" by (rule walk_reaches)
next
  assume "(s, t) \<in> (edges nb)\<^sup>*"
  then show "\<exists>p. walk nb s t p" by (rule reaches_walk)
qed

section \<open>The group search\<close>

lemma snd_fold_mark:
  "\<exists>ms. snd (fold mark ns st) = snd st @ ms \<and> set ms = set ns - fst st \<and> distinct ms"
proof (induction ns arbitrary: st)
  case Nil
  show ?case by (rule exI [of _ "[]"]) simp
next
  case (Cons n ns)
  show ?case
  proof (cases "n \<in> fst st")
    case True
    then have v: "mark n st = st" by (simp add: mark_def)
    from Cons.IH [of st] obtain ms where
      "snd (fold mark ns st) = snd st @ ms" "set ms = set ns - fst st" "distinct ms"
      by blast
    with True v show ?thesis by (intro exI [of _ ms]) auto
  next
    case False
    let ?st = "(insert n (fst st), snd st @ [n])"
    from False have v: "mark n st = ?st" by (simp add: mark_def)
    from Cons.IH [of ?st] obtain ms where
      ms: "snd (fold mark ns ?st) = snd ?st @ ms" "set ms = set ns - fst ?st" "distinct ms"
      by blast
    show ?thesis
    proof (intro exI [of _ "n # ms"] conjI)
      show "snd (fold mark (n # ns) st) = snd st @ n # ms" using ms(1) v by simp
      show "set (n # ms) = set (n # ns) - fst st" using ms(2) False by auto
      show "distinct (n # ms)" using ms(2,3) by simp
    qed
  qed
qed

lemma collect_result:
  assumes "visited = V0 \<union> set grp \<union> set queue"
    and "distinct (grp @ queue)" and "set (grp @ queue) \<inter> V0 = {}"
    and "\<forall>u \<in> set grp. set (neighborsOf g u) \<subseteq> visited"
    and "\<forall>u \<in> set (grp @ queue). (word, u) \<in> (edges (neighborsOf g))\<^sup>*"
    and "collect g visited queue grp = (visited', grp')"
  shows "visited' = V0 \<union> set grp' \<and> distinct grp' \<and> set grp' \<inter> V0 = {} \<and>
         (\<forall>u \<in> set grp'. set (neighborsOf g u) \<subseteq> visited') \<and>
         (\<forall>u \<in> set grp'. (word, u) \<in> (edges (neighborsOf g))\<^sup>*) \<and>
         set grp \<union> set queue \<subseteq> set grp'"
  using assms
proof (induction g visited queue grp rule: collect.induct)
  case (1 g visited grp)
  then show ?case by auto
next
  case (2 g visited current queue grp)
  define V1 where "V1 = fst (fold mark (neighborsOf g current) (visited, queue))"
  define Q1 where "Q1 = snd (fold mark (neighborsOf g current) (visited, queue))"
  have V1: "V1 = visited \<union> set (neighborsOf g current)" by (simp add: V1_def fst_fold_mark)
  obtain ms where Q1: "Q1 = queue @ ms" and ms: "set ms = set (neighborsOf g current) - visited"
    and dms: "distinct ms"
    using snd_fold_mark [of "neighborsOf g current" "(visited, queue)"] unfolding Q1_def by auto
  have msD: "\<And>n. n \<in> set ms \<Longrightarrow> n \<in> set (neighborsOf g current) \<and> n \<notin> visited"
    using ms by blast
  note vis = "2.prems"(1)
  have a1: "V1 = V0 \<union> set (grp @ [current]) \<union> set Q1"
    unfolding V1 Q1 vis using ms vis by auto
  have a2: "distinct ((grp @ [current]) @ Q1)"
    using "2.prems"(2) dms msD unfolding Q1 vis by auto
  have a3: "set ((grp @ [current]) @ Q1) \<inter> V0 = {}"
    using "2.prems"(3) msD unfolding Q1 vis by auto
  have a4: "\<forall>u \<in> set (grp @ [current]). set (neighborsOf g u) \<subseteq> V1"
    using "2.prems"(4) unfolding V1 by auto
  have a5: "\<forall>u \<in> set ((grp @ [current]) @ Q1). (word, u) \<in> (edges (neighborsOf g))\<^sup>*"
  proof
    fix u assume "u \<in> set ((grp @ [current]) @ Q1)"
    then consider "u \<in> set (grp @ current # queue)" | "u \<in> set ms" unfolding Q1 by auto
    then show "(word, u) \<in> (edges (neighborsOf g))\<^sup>*"
    proof cases
      case 1
      with "2.prems"(5) show ?thesis by blast
    next
      case 2
      from "2.prems"(5) have "(word, current) \<in> (edges (neighborsOf g))\<^sup>*" by simp
      moreover from msD [OF 2] have "(current, u) \<in> edges (neighborsOf g)" by (simp add: edges_def)
      ultimately show ?thesis by (rule rtrancl_into_rtrancl)
    qed
  qed
  have a6: "collect g V1 Q1 (grp @ [current]) = (visited', grp')"
    using "2.prems"(6) by (simp add: V1_def Q1_def)
  from "2.IH" [OF a1 [unfolded V1_def Q1_def] a2 [unfolded Q1_def] a3 [unfolded Q1_def]
      a4 [unfolded V1_def] a5 [unfolded Q1_def] a6 [unfolded V1_def Q1_def]]
  show ?case unfolding Q1_def [symmetric] Q1 by auto
qed

lemma update_fresh: "k \<notin> fst ` set al \<Longrightarrow> AList.update k v al = al @ [(k, v)]"
  by (induction al) auto

lemma reach_in:
  assumes closedW: "\<And>u v. v \<in> set (neighborsOf g u) \<Longrightarrow> v \<in> W" and "word \<in> W"
    and "(word, u) \<in> (edges (neighborsOf g))\<^sup>*"
  shows "u \<in> W"
  using assms(3,2) by (induction rule: rtrancl_induct) (auto simp: edges_def intro: closedW)

lemma groupStep_inv:
  assumes symg: "sym (edges (neighborsOf g))"
    and closedW: "\<And>u v. v \<in> set (neighborsOf g u) \<Longrightarrow> v \<in> W"
    and wW: "word \<in> W"
    and inv: "groups_inv g W st"
  shows "groups_inv g W (groupStep g word st) \<and> word \<in> fst (snd (groupStep g word st)) \<and>
         fst (snd st) \<subseteq> fst (snd (groupStep g word st))"
proof -
  obtain gs visited groupId where st: "st = (gs, visited, groupId)" by (cases st) auto
  let ?E = "edges (neighborsOf g)"
  have all: "visited = \<Union> (set ` snd ` set gs) \<and> visited \<subseteq> W \<and>
        distinct (concat (map snd gs)) \<and> map fst gs = [0..<groupId] \<and>
        (\<forall>u \<in> visited. set (neighborsOf g u) \<subseteq> visited) \<and>
        (\<forall>grp \<in> snd ` set gs. \<forall>a \<in> set grp. set grp = {b. (a, b) \<in> ?E\<^sup>*})"
    by (rule inv [unfolded groups_inv_def st prod.case])
  from all have vis: "visited = \<Union> (set ` snd ` set gs)" by blast
  from all have sub: "visited \<subseteq> W" by blast
  from all have dis: "distinct (concat (map snd gs))" by blast
  from all have keys: "map fst gs = [0..<groupId]" by blast
  from all have closed: "\<And>u. u \<in> visited \<Longrightarrow> set (neighborsOf g u) \<subseteq> visited" by blast
  from all have comp: "\<And>grp a. grp \<in> snd ` set gs \<Longrightarrow> a \<in> set grp \<Longrightarrow>
      set grp = {b. (a, b) \<in> ?E\<^sup>*}" by blast
  show ?thesis
  proof (cases "word \<in> visited")
    case True
    with inv show ?thesis by (simp add: groupStep_def st)
  next
    case False
    obtain visited' grp where c: "collect g (insert word visited) [word] [] = (visited', grp)"
      by (cases "collect g (insert word visited) [word] []") auto
    have "visited' = visited \<union> set grp \<and> distinct grp \<and> set grp \<inter> visited = {} \<and>
         (\<forall>u \<in> set grp. set (neighborsOf g u) \<subseteq> visited') \<and>
         (\<forall>u \<in> set grp. (word, u) \<in> ?E\<^sup>*) \<and> set [] \<union> set [word] \<subseteq> set grp"
      by (rule collect_result [OF _ _ _ _ _ c]) (use False in auto)
    then have v': "visited' = visited \<union> set grp" and dg: "distinct grp"
      and dj: "set grp \<inter> visited = {}"
      and cg: "\<And>u. u \<in> set grp \<Longrightarrow> set (neighborsOf g u) \<subseteq> visited'"
      and rg: "\<And>u. u \<in> set grp \<Longrightarrow> (word, u) \<in> ?E\<^sup>*"
      and wg: "word \<in> set grp"
      by auto
    from wg have pos: "length grp > 0" by (cases grp) auto
    have fresh: "groupId \<notin> fst ` set gs"
    proof -
      have "fst ` set gs = set (map fst gs)" by simp
      also have "\<dots> = {0..<groupId}" unfolding keys by simp
      finally show ?thesis by simp
    qed
    have step: "groupStep g word st = (gs @ [(groupId, grp)], visited', groupId + 1)"
      using False c pos by (simp add: groupStep_def st update_fresh [OF fresh])
    have inside: "set (neighborsOf g u) \<subseteq> set grp" if "u \<in> set grp" for u
    proof
      fix n assume n: "n \<in> set (neighborsOf g u)"
      with cg [OF that] have "n \<in> visited \<or> n \<in> set grp" by (auto simp: v')
      then show "n \<in> set grp"
      proof
        assume nv: "n \<in> visited"
        from n have "(u, n) \<in> ?E" by (simp add: edges_def)
        with symg have "(n, u) \<in> ?E" by (meson symD)
        then have "u \<in> set (neighborsOf g n)" by (simp add: edges_def)
        with closed [OF nv] have "u \<in> visited" by blast
        with that dj show ?thesis by blast
      qed
    qed
    have reach_grp: "b \<in> set grp" if "(word, b) \<in> ?E\<^sup>*" for b
      using that
    proof (induction rule: rtrancl_induct)
      case base
      show ?case by (rule wg)
    next
      case (step y z)
      from step.hyps(2) have "z \<in> set (neighborsOf g y)" by (simp add: edges_def)
      with inside [OF step.IH] show ?case by blast
    qed
    have symr: "sym (?E\<^sup>*)" using symg by (rule sym_rtrancl)
    have comp_new: "set grp = {b. (a, b) \<in> ?E\<^sup>*}" if a: "a \<in> set grp" for a
    proof (intro equalityI subsetI)
      fix b assume "b \<in> set grp"
      from rg [OF a] symr have "(a, word) \<in> ?E\<^sup>*" by (meson symD)
      from this rg [OF \<open>b \<in> set grp\<close>] have "(a, b) \<in> ?E\<^sup>*" by (rule rtrancl_trans)
      then show "b \<in> {b. (a, b) \<in> ?E\<^sup>*}" by simp
    next
      fix b assume "b \<in> {b. (a, b) \<in> ?E\<^sup>*}"
      then have "(a, b) \<in> ?E\<^sup>*" by simp
      from rg [OF a] this have "(word, b) \<in> ?E\<^sup>*" by (rule rtrancl_trans)
      then show "b \<in> set grp" by (rule reach_grp)
    qed
    have i1: "visited' = \<Union> (set ` snd ` set (gs @ [(groupId, grp)]))"
      unfolding v' vis by auto
    have i2: "visited' \<subseteq> W"
    proof
      fix u assume "u \<in> visited'"
      then consider "u \<in> visited" | "u \<in> set grp" by (auto simp: v')
      then show "u \<in> W"
      proof cases
        case 1 with sub show ?thesis by blast
      next
        case 2
        from reach_in [of g W word u, OF closedW wW rg [OF 2]] show ?thesis by simp
      qed
    qed
    have i3: "distinct (concat (map snd (gs @ [(groupId, grp)])))"
      using dis dg dj unfolding vis by auto
    have i4: "map fst (gs @ [(groupId, grp)]) = [0..<groupId + 1]"
      using keys by simp
    have i5: "\<forall>u \<in> visited'. set (neighborsOf g u) \<subseteq> visited'"
    proof
      fix u assume "u \<in> visited'"
      then consider "u \<in> visited" | "u \<in> set grp" by (auto simp: v')
      then show "set (neighborsOf g u) \<subseteq> visited'"
      proof cases
        case 1 from closed [OF 1] show ?thesis by (auto simp: v')
      next
        case 2 from cg [OF 2] show ?thesis .
      qed
    qed
    have i6: "\<forall>grp' \<in> snd ` set (gs @ [(groupId, grp)]). \<forall>a \<in> set grp'.
        set grp' = {b. (a, b) \<in> ?E\<^sup>*}"
    proof (intro ballI)
      fix grp' a assume g': "grp' \<in> snd ` set (gs @ [(groupId, grp)])" and a: "a \<in> set grp'"
      from g' consider "grp' \<in> snd ` set gs" | "grp' = grp" by auto
      then show "set grp' = {b. (a, b) \<in> ?E\<^sup>*}"
      proof cases
        case 1 from comp [OF 1 a] show ?thesis .
      next
        case 2 with comp_new [of a] a show ?thesis by simp
      qed
    qed
    from i1 i2 i3 i4 i5 i6 have "groups_inv g W (gs @ [(groupId, grp)], visited', groupId + 1)"
      unfolding groups_inv_def by (simp only: prod.case)
    with step wg show ?thesis by (auto simp: st v')
  qed
qed

lemma groups_inv_fold:
  assumes symg: "sym (edges (neighborsOf g))"
    and closedW: "\<And>u v. v \<in> set (neighborsOf g u) \<Longrightarrow> v \<in> W"
  shows "set ws \<subseteq> W \<Longrightarrow> groups_inv g W st \<Longrightarrow>
         groups_inv g W (fold (groupStep g) ws st) \<and>
         set ws \<union> fst (snd st) \<subseteq> fst (snd (fold (groupStep g) ws st))"
proof (induction ws arbitrary: st)
  case Nil
  then show ?case by simp
next
  case (Cons w ws)
  from Cons.prems have wW: "w \<in> W" and sub: "set ws \<subseteq> W" by simp_all
  from groupStep_inv [OF symg closedW wW Cons.prems(2)]
  have s: "groups_inv g W (groupStep g w st)" "w \<in> fst (snd (groupStep g w st))"
    "fst (snd st) \<subseteq> fst (snd (groupStep g w st))" by simp_all
  from Cons.IH [OF sub s(1)] s(2,3) show ?case by auto
qed

section \<open>The artifact of a word list\<close>

lemma sym_buildGraph: "sym (edges (neighborsOf (buildGraph ws)))"
  by (rule symI) (simp add: edges_def buildGraph_symmetric)

lemma findGroups_inv:
  "groups_inv (buildGraph ws) (set ws) (fold (groupStep (buildGraph ws)) ws ([], {}, 0)) \<and>
   set ws \<subseteq> fst (snd (fold (groupStep (buildGraph ws)) ws ([], {}, 0)))"
proof -
  have closed: "\<And>u v. v \<in> set (neighborsOf (buildGraph ws) u) \<Longrightarrow> v \<in> set ws"
    using buildGraph_closed by blast
  have init: "groups_inv (buildGraph ws) (set ws) ([], {}, 0)"
    by (simp add: groups_inv_def)
  from groups_inv_fold [OF sym_buildGraph closed subset_refl init] show ?thesis by simp
qed

lemma findGroups_facts:
  "\<Union> (set ` snd ` set (findGroups (buildGraph ws) ws)) = set ws \<and>
   distinct (concat (map snd (findGroups (buildGraph ws) ws))) \<and>
   (\<forall>grp \<in> snd ` set (findGroups (buildGraph ws) ws). \<forall>a \<in> set grp.
      set grp = {b. (a, b) \<in> (edges (neighborsOf (buildGraph ws)))\<^sup>*})"
proof -
  obtain gs visited groupId where
    st: "fold (groupStep (buildGraph ws)) ws ([], {}, 0) = (gs, visited, groupId)"
    by (cases "fold (groupStep (buildGraph ws)) ws ([], {}, 0)") auto
  from findGroups_inv [of ws] have inv: "groups_inv (buildGraph ws) (set ws) (gs, visited, groupId)"
    and sup: "set ws \<subseteq> visited" by (simp_all add: st)
  note all = inv [unfolded groups_inv_def prod.case]
  from all have vis: "visited = \<Union> (set ` snd ` set gs)" by blast
  from all have sub: "visited \<subseteq> set ws" by blast
  from all have dis: "distinct (concat (map snd gs))" by blast
  from all have comp: "\<forall>grp \<in> snd ` set gs. \<forall>a \<in> set grp.
      set grp = {b. (a, b) \<in> (edges (neighborsOf (buildGraph ws)))\<^sup>*}" by blast
  have gs: "findGroups (buildGraph ws) ws = gs" by (simp add: findGroups_def st)
  from vis sub sup have "\<Union> (set ` snd ` set gs) = set ws" by blast
  with dis comp show ?thesis unfolding gs by blast
qed

lemma distinct_concat_nth:
  "distinct (concat xss) \<Longrightarrow> i < j \<Longrightarrow> j < length xss \<Longrightarrow> x \<in> set (xss ! i) \<Longrightarrow> x \<notin> set (xss ! j)"
proof (induction xss arbitrary: i j)
  case Nil
  then show ?case by simp
next
  case (Cons ys xss)
  from Cons.prems(2) obtain j' where j: "j = Suc j'" by (cases j) auto
  show ?case
  proof (cases i)
    case 0
    with Cons.prems j have "x \<in> set ys" "xss ! j' \<in> set xss" by simp_all
    with Cons.prems(1) have "x \<notin> set (xss ! j')" by auto
    with j show ?thesis by simp
  next
    case (Suc i')
    with Cons.prems j Cons.IH [of i' j'] show ?thesis by simp
  qed
qed

lemma in_unique_group:
  assumes "distinct (concat (map snd gs))" "w \<in> \<Union> (set ` snd ` set gs)"
  shows "\<exists>!i. i < length gs \<and> w \<in> set (snd (gs ! i))"
proof -
  from assms(2) obtain x where "x \<in> set gs" "w \<in> set (snd x)" by auto
  then obtain i where i: "i < length gs" "w \<in> set (snd (gs ! i))"
    by (auto simp: in_set_conv_nth)
  have uniq: "j = i" if "j < length gs" "w \<in> set (snd (gs ! j))" for j
  proof (rule ccontr)
    assume "j \<noteq> i"
    then consider "i < j" | "j < i" by linarith
    then show False
    proof cases
      case 1
      from distinct_concat_nth [OF assms(1) 1, of w] that i show False by simp
    next
      case 2
      from distinct_concat_nth [OF assms(1) 2, of w] that i show False by simp
    qed
  qed
  from i uniq show ?thesis by blast
qed

lemma preprocessWords_simps:
  "words (preprocessWords ws) = ws"
  "graph (preprocessWords ws) = buildGraph ws"
  "groups (preprocessWords ws) = findGroups (buildGraph ws) ws"
  by (simp_all add: preprocessWords_def Let_def)

lemma keys_buildGraph: "fst ` set (buildGraph ws) = set ws"
proof -
  have "fst ` set (buildGraph ws) = dom (map_of (buildGraph ws))" by (simp add: dom_map_of_conv_image_fst)
  also have "\<dots> = set ws" by (auto simp: map_of_buildGraph dom_def)
  finally show ?thesis .
qed

text \<open>
  What the script feeds the builder: every word it keeps passes the test \<^const>\<open>isWord\<close>, and
  the artifact it writes has a graph entry for each of its words.
\<close>

lemma wordsByLength_isWord: "\<forall>w \<in> set (wordsByLength (dictionaryWords lines) len). isWord w"
  by (simp add: wordsByLength_def dictionaryWords_def)

lemma preprocessDictionary_Some:
  assumes "preprocessDictionary lines len = Some d"
  shows "d = preprocessWords (words d) \<and> (\<forall>w \<in> set (words d). isWord w \<and> length w = len)"
proof -
  from assms have d: "d = preprocessWords (wordsByLength (dictionaryWords lines) len)"
    by (simp add: preprocessDictionary_def Let_def split: if_splits)
  then have w: "words d = wordsByLength (dictionaryWords lines) len"
    by (simp add: preprocessWords_simps)
  with d have "d = preprocessWords (words d)" by simp
  moreover have "\<forall>w \<in> set (words d). isWord w \<and> length w = len"
    unfolding w using wordsByLength_isWord [of lines len] by (simp add: wordsByLength_def)
  ultimately show ?thesis by simp
qed

lemma preprocessWords_keys:
  "set (words (preprocessWords ws)) \<subseteq> fst ` set (graph (preprocessWords ws))"
  by (simp add: preprocessWords_simps keys_buildGraph)

text \<open>
  Claim C4. In the graph built from a list of words, for words \<open>A\<close> and \<open>B\<close> of the list: \<open>A\<close>
  has an entry; \<open>B\<close> is among the neighbours of \<open>A\<close> exactly when the two have the same length
  and differ at one position, which is what \<^verbatim>\<open>differByOne\<close> tests; the relation is symmetric
  and no word is its own neighbour. (Neither equal lengths nor the absence of duplicates is
  needed.)
\<close>

theorem buildGraph_adjacency:
  assumes "\<forall>w \<in> set wordList. isWord w" "A \<in> set wordList" "B \<in> set wordList"
  shows "map_of (buildGraph wordList) A = Some (neighborsOf (buildGraph wordList) A) \<and>
         (B \<in> set (neighborsOf (buildGraph wordList) A) \<longleftrightarrow> oneLetterApart A B) \<and>
         (B \<in> set (neighborsOf (buildGraph wordList) A) \<longleftrightarrow> differByOne A B) \<and>
         (B \<in> set (neighborsOf (buildGraph wordList) A)
            \<longleftrightarrow> A \<in> set (neighborsOf (buildGraph wordList) B)) \<and>
         A \<notin> set (neighborsOf (buildGraph wordList) A)"
proof -
  have 1: "map_of (buildGraph wordList) A = Some (neighborsOf (buildGraph wordList) A)"
    using assms(2) by (simp add: neighborsOf_def map_of_buildGraph)
  have 2: "B \<in> set (neighborsOf (buildGraph wordList) A) \<longleftrightarrow> oneLetterApart A B"
    using assms by (rule buildGraph_adjacent)
  have 3: "differByOne A B = oneLetterApart A B"
    using assms by (intro differByOne_words) simp_all
  have 4: "B \<in> set (neighborsOf (buildGraph wordList) A)
            \<longleftrightarrow> A \<in> set (neighborsOf (buildGraph wordList) B)"
    using buildGraph_symmetric by blast
  have 5: "A \<notin> set (neighborsOf (buildGraph wordList) A)"
    by (simp add: neighborsOf_buildGraph)
  from 1 2 3 4 5 show ?thesis by simp
qed

text \<open>The claim on the six four-letter words \<open>CORE\<close>, \<open>CORK\<close>, \<open>FORK\<close>, \<open>FORT\<close>, \<open>FOOT\<close>, \<open>PORT\<close>.\<close>

theorem buildGraph_adjacency_witness:
  "''CORK'' \<in> set (neighborsOf (buildGraph fixture6) ''CORE'') \<and>
   ''CORE'' \<in> set (neighborsOf (buildGraph fixture6) ''CORK'') \<and>
   ''FOOT'' \<notin> set (neighborsOf (buildGraph fixture6) ''CORE'') \<and>
   differByOne ''CORE'' ''CORK''"
proof -
  have w: "\<forall>w \<in> set fixture6. isWord w" by (simp add: fixture6_def isWord_def letters_def)
  have m: "''CORE'' \<in> set fixture6" "''CORK'' \<in> set fixture6" "''FOOT'' \<in> set fixture6"
    by (simp_all add: fixture6_def)
  have a: "oneLetterApart ''CORE'' ''CORK''" "\<not> oneLetterApart ''CORE'' ''FOOT''"
    by (simp_all add: oneLetterApart_def)
  from buildGraph_adjacency [OF w m(1) m(2)] buildGraph_adjacency [OF w m(1) m(3)] a
  show ?thesis by blast
qed

text \<open>
  Claim C5. The groups written for a list of words partition it: the members of all groups
  together are the words of the list, no word occurs twice in the groups, and every word of
  the list is in exactly one group.
\<close>

theorem groups_partition:
  assumes "\<forall>w \<in> set wordList. isWord w"
  shows "\<Union> (set ` snd ` set (groups (preprocessWords wordList))) = set wordList \<and>
         distinct (concat (map snd (groups (preprocessWords wordList)))) \<and>
         (\<forall>w \<in> set wordList.
            \<exists>!i. i < length (groups (preprocessWords wordList)) \<and>
                 w \<in> set (snd (groups (preprocessWords wordList) ! i)))"
proof -
  let ?gs = "findGroups (buildGraph wordList) wordList"
  from findGroups_facts [of wordList] have cover: "\<Union> (set ` snd ` set ?gs) = set wordList"
    and dis: "distinct (concat (map snd ?gs))" by simp_all
  have "\<exists>!i. i < length ?gs \<and> w \<in> set (snd (?gs ! i))" if "w \<in> set wordList" for w
  proof (rule in_unique_group [OF dis])
    from that cover show "w \<in> \<Union> (set ` snd ` set ?gs)" by blast
  qed
  with cover dis show ?thesis by (simp add: preprocessWords_simps)
qed

text \<open>
  Claim C6. For two words of the list an artifact was built from, \<^verbatim>\<open>areInSameGroup\<close> holds
  exactly when a walk in the artifact's graph leads from one to the other.
\<close>

theorem same_group_iff_connected:
  assumes "\<forall>w \<in> set wordList. isWord w" "a \<in> set wordList" "b \<in> set wordList"
  shows "areInSameGroup a b (groups (preprocessWords wordList)) \<longleftrightarrow>
         (\<exists>p. walk (neighborsOf (graph (preprocessWords wordList))) a b p)"
proof -
  let ?gs = "findGroups (buildGraph wordList) wordList"
  let ?E = "edges (neighborsOf (buildGraph wordList))"
  from findGroups_facts [of wordList] have cover: "\<Union> (set ` snd ` set ?gs) = set wordList"
    and comp: "\<And>grp x. grp \<in> snd ` set ?gs \<Longrightarrow> x \<in> set grp \<Longrightarrow> set grp = {y. (x, y) \<in> ?E\<^sup>*}"
    by blast+
  from assms have up: "toUpperCase a = a" "toUpperCase b = b" by (simp_all add: toUpperCase_isWord)
  have "areInSameGroup a b ?gs \<longleftrightarrow> (a, b) \<in> ?E\<^sup>*"
  proof
    assume "areInSameGroup a b ?gs"
    then obtain grp where g: "grp \<in> snd ` set ?gs" "a \<in> set grp" "b \<in> set grp"
      unfolding areInSameGroup_iff up by blast
    from comp [OF g(1,2)] g(3) show "(a, b) \<in> ?E\<^sup>*" by blast
  next
    assume r: "(a, b) \<in> ?E\<^sup>*"
    from assms(2) cover obtain grp where g: "grp \<in> snd ` set ?gs" "a \<in> set grp" by blast
    from comp [OF g] r have "b \<in> set grp" by blast
    with g show "areInSameGroup a b ?gs" unfolding areInSameGroup_iff up by blast
  qed
  then show ?thesis by (simp add: preprocessWords_simps walk_iff_reaches)
qed

lemma isWord_fixtureWords: "\<forall>w \<in> set fixtureWords. isWord w"
  by (simp add: fixtureWords_def isWord_def letters_def)

lemma buildGraph_fixtureWords:
  "buildGraph fixtureWords = [(''AB'', [''AC'']), (''AC'', [''AB'']), (''XY'', [])]"
  by (simp add: fixtureWords_def buildGraph_def buildPatternMap_def pattern_def pushWord_def
      neighborSet_def wordsInPattern_def setAdd_def upt_rec)

lemma preprocessWords_fixtureWords: "preprocessWords fixtureWords = fixture2"
  by (simp add: preprocessWords_def buildGraph_fixtureWords Let_def fixture2_def findGroups_def)
    (simp add: fixtureWords_def groupStep_def neighborsOf_def mark_def)

text \<open>Claim C5 on the words \<open>AB\<close>, \<open>AC\<close>, \<open>XY\<close>.\<close>

theorem groups_partition_witness:
  "\<Union> (set ` snd ` set (groups (preprocessWords fixtureWords))) = set fixtureWords \<and>
   distinct (concat (map snd (groups (preprocessWords fixtureWords))))"
  using groups_partition [OF isWord_fixtureWords] by blast

text \<open>Claim C6 on the same words: \<open>AB\<close> and \<open>AC\<close> share a group, \<open>AB\<close> and \<open>XY\<close> do not.\<close>

theorem same_group_iff_connected_witness:
  "areInSameGroup ''AB'' ''AC'' (groups (preprocessWords fixtureWords)) \<and>
   \<not> areInSameGroup ''AB'' ''XY'' (groups (preprocessWords fixtureWords)) \<and>
   \<not> (\<exists>p. walk (neighborsOf (graph (preprocessWords fixtureWords))) ''AB'' ''XY'' p)"
proof -
  have m: "''AB'' \<in> set fixtureWords" "''AC'' \<in> set fixtureWords" "''XY'' \<in> set fixtureWords"
    by (simp_all add: fixtureWords_def)
  have "walk (neighborsOf (graph (preprocessWords fixtureWords))) ''AB'' ''AC'' [''AB'', ''AC'']"
    by (simp add: preprocessWords_simps buildGraph_fixtureWords walk_def neighborsOf_def)
  then have 1: "\<exists>p. walk (neighborsOf (graph (preprocessWords fixtureWords))) ''AB'' ''AC'' p" ..
  have 2: "\<not> areInSameGroup ''AB'' ''XY'' (groups (preprocessWords fixtureWords))"
    by (simp add: preprocessWords_fixtureWords fixture2_def areInSameGroup_def
        toUpperCase_fixture2)
  from same_group_iff_connected [OF isWord_fixtureWords m(1) m(2)]
    same_group_iff_connected [OF isWord_fixtureWords m(1) m(3)] 1 2
  show ?thesis by blast
qed

lemma POST_Success:
  assumes "fst (POST fs startWord endWord s) = Success p n"
  shows "\<exists>d. fst (loadDictionary fs (length (trim (toUpperCase startWord))) s) = Some d \<and>
             findShortestPath (trim (toUpperCase startWord)) (trim (toUpperCase endWord)) (graph d)
               = Some p \<and> n = length p"
  using assms
  by (auto simp: POST_def Let_def split: if_splits prod.splits option.splits)

lemma buildGraph_walk_differByOne:
  assumes "\<forall>w \<in> set wordList. isWord w"
    and "successively (\<lambda>u v. v \<in> set (neighborsOf (buildGraph wordList) u)) p"
  shows "successively differByOne p"
  using assms(2)
proof (rule successively_mono)
  fix u v assume "v \<in> set (neighborsOf (buildGraph wordList) u)"
  with buildGraph_closed [of v wordList u] have m: "u \<in> set wordList" "v \<in> set wordList"
    and n: "v \<in> set (neighborsOf (buildGraph wordList) u)" by simp_all
  from buildGraph_adjacent [OF assms(1) m] n have "oneLetterApart u v" by simp
  with differByOne_words [of u v] assms(1) m show "differByOne u v" by simp
qed

text \<open>
  Claim C3. A path that \<^verbatim>\<open>findShortestPath\<close> returns is not empty, starts with the start word
  and ends with the end word (both in upper case, as the function normalises them), and each
  of its elements is followed by one of its neighbours in the graph; in a graph built by the
  preprocessing script each element differs from the next in exactly one letter. A path the
  route returns is the path \<^verbatim>\<open>findShortestPath\<close> returned for the normalised words on the
  graph of the loaded artifact.
\<close>

theorem returned_path_valid:
  "(findShortestPath startWord endWord g = Some p \<longrightarrow>
      p \<noteq> [] \<and> hd p = toUpperCase startWord \<and> last p = toUpperCase endWord \<and>
      successively (\<lambda>u v. v \<in> set (neighborsOf g u)) p \<and>
      (\<forall>wordList. (\<forall>w \<in> set wordList. isWord w) \<and> g = buildGraph wordList
          \<longrightarrow> successively differByOne p)) \<and>
   (fst (POST fs startWord endWord s) = Success p n \<longrightarrow>
      (\<exists>d. fst (loadDictionary fs (length (trim (toUpperCase startWord))) s) = Some d \<and>
           p \<noteq> [] \<and> hd p = trim (toUpperCase startWord) \<and> last p = trim (toUpperCase endWord) \<and>
           successively (\<lambda>u v. v \<in> set (neighborsOf (graph d) u)) p))"
proof (intro conjI impI)
  assume a: "findShortestPath startWord endWord g = Some p"
  from findShortestPath_walk [OF a]
  have w: "p \<noteq> [] \<and> hd p = toUpperCase startWord \<and> last p = toUpperCase endWord \<and>
      successively (\<lambda>u v. v \<in> set (neighborsOf g u)) p"
    by (simp add: walk_def)
  then show "p \<noteq> []" "hd p = toUpperCase startWord" "last p = toUpperCase endWord"
    "successively (\<lambda>u v. v \<in> set (neighborsOf g u)) p" by simp_all
  show "\<forall>wordList. (\<forall>w \<in> set wordList. isWord w) \<and> g = buildGraph wordList
          \<longrightarrow> successively differByOne p"
    using w buildGraph_walk_differByOne by blast
next
  assume "fst (POST fs startWord endWord s) = Success p n"
  from POST_Success [OF this] obtain d where
    d: "fst (loadDictionary fs (length (trim (toUpperCase startWord))) s) = Some d"
    and f: "findShortestPath (trim (toUpperCase startWord)) (trim (toUpperCase endWord)) (graph d) = Some p"
    by blast
  from findShortestPath_walk [OF f]
  have "p \<noteq> [] \<and> hd p = trim (toUpperCase startWord) \<and> last p = trim (toUpperCase endWord) \<and>
      successively (\<lambda>u v. v \<in> set (neighborsOf (graph d) u)) p"
    by (simp add: walk_def toUpperCase_trim_upper)
  with d show "\<exists>d. fst (loadDictionary fs (length (trim (toUpperCase startWord))) s) = Some d \<and>
           p \<noteq> [] \<and> hd p = trim (toUpperCase startWord) \<and> last p = trim (toUpperCase endWord) \<and>
           successively (\<lambda>u v. v \<in> set (neighborsOf (graph d) u)) p"
    by blast
qed

text \<open>The claim at a query in mixed case on the artifact of \<open>AB\<close>, \<open>AC\<close>, \<open>XY\<close>.\<close>

theorem returned_path_valid_witness:
  "fst (POST (\<lambda>_. Stored (preprocessWords fixtureWords)) ''ab'' ''AC '' server0)
     = Success [''AB'', ''AC''] 2 \<and>
   hd [''AB'', ''AC''] = trim (toUpperCase ''ab'') \<and>
   last [''AB'', ''AC''] = trim (toUpperCase ''AC '') \<and>
   successively differByOne [''AB'', ''AC'']"
proof -
  have up: "trim (toUpperCase ''ab'') = ''AB''" "trim (toUpperCase ''AC '') = ''AC''"
    by (simp_all add: trim_def isSpace_def toUpperCase_def toUpperChar_def lowerLetters_def
        letters_def)
  have post: "fst (POST (\<lambda>_. Stored (preprocessWords fixtureWords)) ''ab'' ''AC '' server0)
     = Success [''AB'', ''AC''] 2"
    unfolding preprocessWords_fixtureWords
    by (simp add: POST_def up Let_def loadDictionary_def server0_def fixture2_def
        areInSameGroup_def findShortestPath_def visit_def neighborsOf_def toUpperCase_fixture2)
  have find: "findShortestPath ''AB'' ''AC'' (buildGraph fixtureWords) = Some [''AB'', ''AC'']"
    by (simp add: buildGraph_fixtureWords findShortestPath_def visit_def neighborsOf_def
        toUpperCase_fixture2)
  from returned_path_valid [of "''AB''" "''AC''" "buildGraph fixtureWords" "[''AB'', ''AC'']"
      "\<lambda>_. Stored (preprocessWords fixtureWords)" server0 2] find isWord_fixtureWords
  have "successively differByOne [''AB'', ''AC'']" by blast
  moreover from returned_path_valid [of "''ab''" "''AC ''" "[]" "[''AB'', ''AC'']"
      "\<lambda>_. Stored (preprocessWords fixtureWords)" server0 2] post
  have "hd [''AB'', ''AC''] = trim (toUpperCase ''ab'') \<and>
        last [''AB'', ''AC''] = trim (toUpperCase ''AC '')" by blast
  ultimately show ?thesis using post by simp
qed

section \<open>Facts about the ladder generator\<close>

lemma toUpperCase_isUpper: "isUpper w \<Longrightarrow> toUpperCase w = w"
  by (auto simp: isUpper_def intro: toUpperCase_fixed toUpperChar_letter)

lemma differByOne_upper: "isUpper a \<Longrightarrow> isUpper b \<Longrightarrow> differByOne a b = oneLetterApart a b"
  by (simp add: differByOne_iff toUpperCase_isUpper)

lemma set_generateNeighbors:
  "set (generateNeighbors w) =
     {n. \<exists>i < length w. \<exists>l \<in> set letters.
           n = take i w @ l # drop (Suc i) w \<and> toUpperCase n \<noteq> toUpperCase w}"
  by (auto simp: generateNeighbors_def)

lemma replace_upper:
  assumes "isUpper w" "l \<in> set letters"
  shows "isUpper (take i w @ l # drop (Suc i) w)"
  using assms by (auto simp: isUpper_def dest: in_set_takeD in_set_dropD)

lemma generateNeighbors_upper:
  assumes "isUpper w"
  shows "n \<in> set (generateNeighbors w) \<longleftrightarrow> isUpper n \<and> oneLetterApart w n"
proof
  assume "n \<in> set (generateNeighbors w)"
  then obtain i l where i: "i < length w" and l: "l \<in> set letters"
    and n: "n = take i w @ l # drop (Suc i) w" and ne: "toUpperCase n \<noteq> toUpperCase w"
    unfolding set_generateNeighbors by blast
  have un: "isUpper n" unfolding n using assms l by (rule replace_upper)
  with ne assms have "n \<noteq> w" by auto
  moreover have "length w = length n" using i by (simp add: n)
  moreover have "take i n = take i w" using i by (simp add: n)
  moreover have "drop (Suc i) n = drop (Suc i) w" using i by (simp add: n)
  ultimately have "oneLetterApart w n" unfolding oneLetterApart_position using i by blast
  with un show "isUpper n \<and> oneLetterApart w n" by simp
next
  assume r: "isUpper n \<and> oneLetterApart w n"
  then obtain i where i: "i < length w" and t: "take i n = take i w"
    and d: "drop (Suc i) n = drop (Suc i) w" and len: "length w = length n" and ne: "w \<noteq> n"
    unfolding oneLetterApart_position by blast
  from i len have "n = take i n @ n ! i # drop (Suc i) n" by (intro id_take_nth_drop) simp
  with t d have n: "n = take i w @ n ! i # drop (Suc i) w" by simp
  from r i len have l: "n ! i \<in> set letters" by (auto simp: isUpper_def)
  from r assms ne have "toUpperCase n \<noteq> toUpperCase w" by (simp add: toUpperCase_isUpper)
  with i l n show "n \<in> set (generateNeighbors w)" unfolding set_generateNeighbors by blast
qed

lemma fold_visitLadder_upper:
  assumes "isUpper word"
  shows "fold (visitLadder word path) (generateNeighbors word) st
         = fold (visit path) (generateNeighbors word) st"
proof (rule fold_cong [OF refl refl])
  fix n assume "n \<in> set (generateNeighbors word)"
  with generateNeighbors_upper [OF assms, of n] have un: "isUpper n" and one: "oneLetterApart word n"
    by simp_all
  from differByOne_upper [OF assms un] one have "differByOne word n" by simp
  then show "visitLadder word path n = visit path n"
    by (intro ext) (simp add: visitLadder_def visit_def Let_def toUpperCase_isUpper [OF un])
qed

lemma fold_visit_upper:
  assumes "\<forall>x \<in> set (snd st). isUpper (fst x)" "\<forall>n \<in> set ns. isUpper n"
  shows "\<forall>x \<in> set (snd (fold (visit path) ns st)). isUpper (fst x)"
proof -
  obtain ms where ms: "snd (fold (visit path) ns st) = snd st @ map (\<lambda>n. (n, path @ [n])) ms"
    "set ms = set ns - fst st"
    using snd_fold_visit [of path ns st] by blast
  from ms(2) have "set ms \<subseteq> set ns" by blast
  with assms show ?thesis unfolding ms(1) by auto
qed

lemma ladderLoop_shortest:
  "bfs_inv generateNeighbors s e K V Q \<Longrightarrow> \<forall>x \<in> set Q. isUpper (fst x) \<Longrightarrow> isUpper e \<Longrightarrow>
   \<forall>n. geNumber n maxSteps \<longrightarrow> K \<le> n \<Longrightarrow> walk generateNeighbors s e q \<Longrightarrow> length q \<le> K \<Longrightarrow>
     \<exists>p. ladderLoop e maxSteps V Q = Some p \<and> walk generateNeighbors s e p \<and> length p \<le> length q"
proof (induction e maxSteps V Q rule: ladderLoop.induct)
  case (1 endWord maxSteps visited)
  from bfs_inv_exhausted [OF "1.prems"(1) "1.prems"(5,6)] show ?case by simp
next
  case (2 endWord maxSteps visited word path queue)
  from "2.prems"(2) have uw: "isUpper word" by simp
  have test: "toUpperCase word = toUpperCase endWord \<longleftrightarrow> word = endWord"
    using uw "2.prems"(3) by (simp add: toUpperCase_isUpper)
  show ?case
  proof (cases "word = endWord")
    case True
    with "2.prems"(1) have inv: "bfs_inv generateNeighbors s endWord K visited ((endWord, path) # queue)"
      by simp
    from bfs_inv_found [OF inv] "2.prems"(5,6) True test show ?thesis by simp
  next
    case False
    show ?thesis
    proof (cases "geNumber (length path) maxSteps")
      case True
      with "2.prems"(4) have cut: "K \<le> length path" by blast
      from bfs_inv_skip [OF "2.prems"(1) False cut]
      have inv: "bfs_inv generateNeighbors s endWord K visited queue" .
      from "2.prems"(2) have up: "\<forall>x \<in> set queue. isUpper (fst x)" by simp
      from "2.IH"(1) [OF _ True inv up "2.prems"(3,4,5,6)] False test True
      show ?thesis by simp
    next
      case nocut: False
      let ?st = "fold (visitLadder word path) (generateNeighbors word) (visited, queue)"
      have eq: "?st = fold (visit path) (generateNeighbors word) (visited, queue)"
        using uw by (rule fold_visitLadder_upper)
      from bfs_inv_expand [OF "2.prems"(1) False]
      have inv: "bfs_inv generateNeighbors s endWord K (fst ?st) (snd ?st)" unfolding eq .
      have "\<forall>n \<in> set (generateNeighbors word). isUpper n"
        using generateNeighbors_upper [OF uw] by simp
      with "2.prems"(2) have up: "\<forall>x \<in> set (snd ?st). isUpper (fst x)"
        unfolding eq by (intro fold_visit_upper) simp_all
      from "2.IH"(2) [OF _ nocut inv up "2.prems"(3,4,5,6)] False test nocut
      show ?thesis by simp
    qed
  qed
qed

lemma mismatches_triangle:
  "length a = length b \<Longrightarrow> length b = length c \<Longrightarrow>
     mismatches a c \<le> mismatches a b + mismatches b c"
  by (induction a b c rule: list_induct3) auto

lemma walk_lower_bound:
  "walk generateNeighbors s t p \<Longrightarrow> isUpper s \<Longrightarrow>
     isUpper t \<and> length t = length s \<and> mismatches s t + 1 \<le> length p"
proof (induction p arbitrary: s)
  case Nil
  then show ?case by (simp add: walk_def)
next
  case (Cons x p)
  note prems = Cons.prems and IH = Cons.IH
  show ?case
  proof (cases p)
    case Nil
    with prems have "s = t" by (auto simp: walk_def)
    with prems(2) show ?thesis by simp
  next
    case (Cons y p')
    with prems(1) have "walk generateNeighbors s t (x # y # p')" by simp
    then have x: "x = s" and y: "y \<in> set (generateNeighbors x)"
      and w: "walk generateNeighbors y t (y # p')"
      unfolding walk_Cons by blast+
    from y have "y \<in> set (generateNeighbors s)" unfolding x .
    with generateNeighbors_upper [OF prems(2), of y]
    have uy: "isUpper y" and one: "oneLetterApart s y" by blast+
    from w Cons have "walk generateNeighbors y t p" by simp
    from IH [OF this uy] have ut: "isUpper t" and len: "length t = length y"
      and le: "mismatches y t + 1 \<le> length p" by simp_all
    from one have sy: "length s = length y" "mismatches s y = 1"
      by (simp_all add: oneLetterApart_def)
    from mismatches_triangle [OF sy(1) len [symmetric]] sy(2)
    have "mismatches s t \<le> 1 + mismatches y t" by linarith
    with le have "mismatches s t + 1 \<le> length (x # p)" by simp
    moreover from len sy(1) have "length t = length s" by linarith
    ultimately show ?thesis using ut by blast
  qed
qed

lemma walk_upper_bound:
  "length s = length e \<Longrightarrow> isUpper s \<Longrightarrow> isUpper e \<Longrightarrow>
     \<exists>q. walk generateNeighbors s e q \<and> length q = mismatches s e + 1 \<and> (\<forall>u \<in> set q. isUpper u)"
proof (induction s e rule: list_induct2)
  case Nil
  have "walk generateNeighbors [] [] [[]]" by (rule walk_single)
  then show ?case by (intro exI [of _ "[[]]"]) (simp add: isUpper_def)
next
  case (Cons a s b e)
  from Cons.prems have us: "isUpper s" and ue: "isUpper e"
    and la: "a \<in> set letters" and lb: "b \<in> set letters"
    by (simp_all add: isUpper_def)
  from Cons.IH [OF us ue] obtain q where q: "walk generateNeighbors s e q"
    and lq: "length q = mismatches s e + 1" and uq: "\<forall>u \<in> set q. isUpper u" by blast
  define q' where "q' = map ((#) b) q"
  from q have qne: "q \<noteq> []" and hq: "hd q = s" and tq: "last q = e"
    and sq: "successively (\<lambda>u v. v \<in> set (generateNeighbors u)) q"
    by (simp_all add: walk_def)
  have step: "b # v \<in> set (generateNeighbors (b # u))"
    if "u \<in> set q" "v \<in> set (generateNeighbors u)" for u v
  proof -
    from that(1) uq have uu: "isUpper u" by simp
    with lb have ubu: "isUpper (b # u)" by (simp add: isUpper_def)
    from that(2) generateNeighbors_upper [OF uu, of v] have "isUpper v" "oneLetterApart u v"
      by simp_all
    with lb have "isUpper (b # v) \<and> oneLetterApart (b # u) (b # v)"
      by (simp add: isUpper_def oneLetterApart_def)
    with generateNeighbors_upper [OF ubu, of "b # v"] show ?thesis by simp
  qed
  have "successively (\<lambda>u v. b # v \<in> set (generateNeighbors (b # u))) q"
    using sq by (rule successively_mono) (rule step)
  then have sq': "successively (\<lambda>u v. v \<in> set (generateNeighbors u)) q'"
    by (simp add: q'_def successively_map)
  have q'ne: "q' \<noteq> []" and hq': "hd q' = b # s" and tq': "last q' = b # e"
    using qne hq tq by (simp_all add: q'_def hd_map last_map)
  have uq': "\<forall>u \<in> set q'. isUpper u" using uq lb by (auto simp: q'_def isUpper_def)
  have w': "walk generateNeighbors (b # s) (b # e) q'"
    using q'ne hq' tq' sq' by (simp add: walk_def)
  show ?case
  proof (cases "a = b")
    case True
    with w' lq uq' show ?thesis by (intro exI [of _ q']) (simp add: q'_def)
  next
    case False
    from Cons.prems(1) have uas: "isUpper (a # s)" .
    have "isUpper (b # s) \<and> oneLetterApart (a # s) (b # s)"
      using us lb False by (simp add: isUpper_def oneLetterApart_def)
    with generateNeighbors_upper [OF uas, of "b # s"]
    have edge: "b # s \<in> set (generateNeighbors (a # s))" by simp
    have "walk generateNeighbors (a # s) (b # e) ((a # s) # q')"
      using q'ne hq' tq' sq' edge by (simp add: walk_def successively_Cons)
    moreover have "length ((a # s) # q') = mismatches (a # s) (b # e) + 1"
      using lq False by (simp add: q'_def)
    moreover have "\<forall>u \<in> set ((a # s) # q'). isUpper u" using uq' uas by simp
    ultimately show ?thesis by blast
  qed
qed

lemma cut_bound:
  assumes "leNumber k maxSteps"
  shows "\<exists>K. k \<le> K \<and> (\<forall>n. geNumber n maxSteps \<longrightarrow> K \<le> n)"
proof (cases maxSteps)
  case (Num r)
  with assms have kr: "real k \<le> r" by simp
  have "int k \<le> \<lceil>r\<rceil>" unfolding le_ceiling_iff using kr by simp
  then have 1: "k \<le> nat \<lceil>r\<rceil>" by linarith
  have 2: "nat \<lceil>r\<rceil> \<le> n" if "geNumber n maxSteps" for n
  proof -
    from that Num have "r \<le> real_of_int (int n)" by simp
    then have "\<lceil>r\<rceil> \<le> int n" by (rule ceiling_le)
    then show ?thesis by linarith
  qed
  from 1 2 show ?thesis by blast
next
  case Infinity
  then show ?thesis by auto
next
  case NegInfinity
  with assms show ?thesis by simp
next
  case NaN
  with assms show ?thesis by simp
qed

lemma generateWordLadder_upper:
  assumes "isUpper startWord" "isUpper endWord" "length startWord = length endWord"
    and "leNumber (mismatches startWord endWord + 1) maxSteps"
  shows "\<exists>p. generateWordLadder startWord endWord maxSteps = Some p \<and>
             length p = mismatches startWord endWord + 1 \<and>
             walk generateNeighbors startWord endWord p"
proof -
  from cut_bound [OF assms(4)] obtain K where
    K: "mismatches startWord endWord + 1 \<le> K" "\<forall>n. geNumber n maxSteps \<longrightarrow> K \<le> n"
    by blast
  from walk_upper_bound [OF assms(3,1,2)] obtain q where
    q: "walk generateNeighbors startWord endWord q" "length q = mismatches startWord endWord + 1"
    by blast
  from q(2) K(1) have qK: "length q \<le> K" by simp
  have inv: "bfs_inv generateNeighbors startWord endWord K {startWord} [(startWord, [startWord])]"
    by (rule bfs_inv_init)
  have up: "\<forall>x \<in> set [(startWord, [startWord])]. isUpper (fst x)" using assms(1) by simp
  from ladderLoop_shortest [OF inv up assms(2) K(2) q(1) qK] obtain p where
    p: "ladderLoop endWord maxSteps {startWord} [(startWord, [startWord])] = Some p"
      "walk generateNeighbors startWord endWord p" "length p \<le> length q"
    by blast
  from walk_lower_bound [OF p(2) assms(1)] have "mismatches startWord endWord + 1 \<le> length p"
    by simp
  with p q(2) assms(1,3) show ?thesis
    by (simp add: generateWordLadder_def toUpperCase_isUpper)
qed

lemma walk_generateNeighbors_differByOne:
  assumes "walk generateNeighbors s t p" "isUpper s"
  shows "successively differByOne p"
  using assms
proof (induction p arbitrary: s)
  case Nil
  then show ?case by simp
next
  case (Cons x p)
  note prems = Cons.prems and IH = Cons.IH
  show ?case
  proof (cases p)
    case Nil
    then show ?thesis by simp
  next
    case (Cons y p')
    with prems(1) have "walk generateNeighbors s t (x # y # p')" by simp
    then have x: "x = s" and y: "y \<in> set (generateNeighbors x)"
      and w: "walk generateNeighbors y t (y # p')"
      unfolding walk_Cons by blast+
    from y have "y \<in> set (generateNeighbors s)" unfolding x .
    with generateNeighbors_upper [OF prems(2), of y]
    have uy: "isUpper y" and one: "oneLetterApart s y" by blast+
    from differByOne_upper [OF prems(2) uy] one have d: "differByOne x y" by (simp add: x)
    from w Cons have "walk generateNeighbors y t p" by simp
    from IH [OF this uy] d Cons show ?thesis by simp
  qed
qed

text \<open>
  What holds of every queued path: it is the start alone, or it extends a path that had not
  reached \<^verbatim>\<open>maxSteps\<close>; and it starts with the start word.
\<close>

lemma fold_visitLadder_hd:
  "\<forall>x \<in> set (snd (fold (visitLadder word path) ns st)).
      x \<in> set (snd st) \<or> (\<exists>n. snd x = path @ [n])"
proof (induction ns arbitrary: st)
  case Nil
  show ?case by simp
next
  case (Cons n ns)
  have "\<forall>x \<in> set (snd (visitLadder word path n st)).
      x \<in> set (snd st) \<or> (\<exists>n. snd x = path @ [n])"
    by (auto simp: visitLadder_def Let_def)
  with Cons.IH [of "visitLadder word path n st"] show ?case by fastforce
qed

lemma ladderLoop_bound:
  "ladderLoop e m V Q = Some p \<Longrightarrow>
   \<forall>x \<in> set Q. hd (snd x) = s \<and>
      (snd x = [s] \<or> (2 \<le> length (snd x) \<and> \<not> geNumber (length (snd x) - 1) m)) \<Longrightarrow>
     hd p = s \<and> (p = [s] \<or> (2 \<le> length p \<and> \<not> geNumber (length p - 1) m))"
proof (induction e m V Q rule: ladderLoop.induct)
  case (1 endWord maxSteps visited)
  then show ?case by simp
next
  case (2 endWord maxSteps visited word path queue)
  show ?case
  proof (cases "toUpperCase word = toUpperCase endWord")
    case True
    with "2.prems" show ?thesis by simp
  next
    case False
    show ?thesis
    proof (cases "geNumber (length path) maxSteps")
      case True
      from "2.IH"(1) [OF False True] "2.prems" False True show ?thesis by simp
    next
      case nocut: False
      let ?st = "fold (visitLadder word path) (generateNeighbors word) (visited, queue)"
      from "2.prems"(2) have hp: "hd path = s" and ne: "path \<noteq> []" by auto
      have "\<forall>x \<in> set (snd ?st). hd (snd x) = s \<and>
          (snd x = [s] \<or> (2 \<le> length (snd x) \<and> \<not> geNumber (length (snd x) - 1) maxSteps))"
      proof
        fix x assume "x \<in> set (snd ?st)"
        with fold_visitLadder_hd [of word path "generateNeighbors word" "(visited, queue)"]
        have "x \<in> set queue \<or> (\<exists>n. snd x = path @ [n])" by auto
        then show "hd (snd x) = s \<and>
          (snd x = [s] \<or> (2 \<le> length (snd x) \<and> \<not> geNumber (length (snd x) - 1) maxSteps))"
        proof
          assume "x \<in> set queue" with "2.prems"(2) show ?thesis by simp
        next
          assume "\<exists>n. snd x = path @ [n]"
          then obtain n where n: "snd x = path @ [n]" ..
          from ne have "1 \<le> length path" by (cases path) simp_all
          with n hp ne nocut show ?thesis by simp
        qed
      qed
      from "2.IH"(2) [OF False nocut _ this] "2.prems"(1) False nocut show ?thesis by simp
    qed
  qed
qed

lemma generateWordLadder_bound:
  assumes "generateWordLadder startWord endWord maxSteps = Some p"
  shows "hd p = startWord \<and>
         (p = [startWord] \<or> (2 \<le> length p \<and> \<not> geNumber (length p - 1) maxSteps))"
proof -
  from assms have "ladderLoop endWord maxSteps {toUpperCase startWord} [(startWord, [startWord])] = Some p"
    by (simp add: generateWordLadder_def split: if_splits)
  then show ?thesis by (rule ladderLoop_bound) simp
qed

lemma generateWordLadder_same:
  assumes "length startWord = length endWord" "toUpperCase startWord = toUpperCase endWord"
  shows "generateWordLadder startWord endWord maxSteps = Some [startWord]"
  using assms by (simp add: generateWordLadder_def)


lemma generateNeighbors_A:
  "generateNeighbors ''A'' = map (\<lambda>c. [c]) ''BCDEFGHIJKLMNOPQRSTUVWXYZ''"
  by (simp add: generateNeighbors_def letters_def toUpperCase_def toUpperChar_def lowerLetters_def)

lemma generateWordLadder_A_B:
  assumes "\<not> geNumber 1 maxSteps"
  shows "generateWordLadder ''A'' ''B'' maxSteps = Some [''A'', ''B'']"
proof -
  have uA: "isUpper ''A''" by (simp add: isUpper_def letters_def)
  have up: "toUpperCase ''A'' = ''A''" "toUpperCase ''B'' = ''B''"
    by (simp_all add: toUpperCase_def toUpperChar_def lowerLetters_def letters_def)
  obtain rest where nb: "generateNeighbors ''A'' = ''B'' # rest"
    by (simp add: generateNeighbors_A)
  let ?st = "fold (visitLadder ''A'' [''A'']) (generateNeighbors ''A'') ({''A''}, [])"
  have "?st = fold (visit [''A'']) (generateNeighbors ''A'') ({''A''}, [])"
    using uA by (rule fold_visitLadder_upper)
  also have "\<dots> = fold (visit [''A'']) rest ({''A'', ''B''}, [(''B'', [''A'', ''B''])])"
    by (simp add: nb visit_def insert_commute)
  finally have st: "?st = fold (visit [''A'']) rest ({''A'', ''B''}, [(''B'', [''A'', ''B''])])" .
  obtain ms where "snd ?st = [(''B'', [''A'', ''B''])] @ map (\<lambda>n. (n, [''A''] @ [n])) ms"
    using snd_fold_visit [of "[''A'']" rest "({''A'', ''B''}, [(''B'', [''A'', ''B''])])"]
    unfolding st by auto
  then obtain tl where q: "snd ?st = (''B'', [''A'', ''B'']) # tl" by simp
  have "ladderLoop ''B'' maxSteps {''A''} [(''A'', [''A''])]
        = ladderLoop ''B'' maxSteps (fst ?st) (snd ?st)"
    using assms by (simp add: up)
  also have "\<dots> = Some [''A'', ''B'']" unfolding q by simp
  finally show ?thesis by (simp add: generateWordLadder_def up)
qed

text \<open>
  Claim C10, as stated, fails: with \<^verbatim>\<open>maxSteps = 0\<close> the generator returns the one-word path
  from \<open>A\<close> to \<open>A\<close>, and with \<^verbatim>\<open>maxSteps = 1.5\<close> the two-word path from \<open>A\<close> to \<open>B\<close>; each has
  more than \<^verbatim>\<open>maxSteps\<close> words.
\<close>

theorem generateWordLadder_exceeds_maxSteps:
  "generateWordLadder ''A'' ''A'' (Num 0) = Some [''A''] \<and>
   \<not> leNumber (length [''A'']) (Num 0) \<and>
   generateWordLadder ''A'' ''B'' (Num 1.5) = Some [''A'', ''B''] \<and>
   \<not> leNumber (length [''A'', ''B'']) (Num 1.5)"
proof -
  have "generateWordLadder ''A'' ''A'' (Num 0) = Some [''A'']"
    by (simp add: generateWordLadder_def)
  moreover have "generateWordLadder ''A'' ''B'' (Num 1.5) = Some [''A'', ''B'']"
    by (rule generateWordLadder_A_B) simp
  ultimately show ?thesis by simp
qed

text \<open>
  Claim C10, amended. For two strings of the letters \<open>A\<close> to \<open>Z\<close> of equal length that differ
  at \<open>d\<close> positions, with \<^verbatim>\<open>d + 1 <= maxSteps\<close>, \<^verbatim>\<open>generateWordLadder\<close> returns a path of
  exactly \<open>d + 1\<close> strings from the first to the second, each one letter apart from the
  next; no dictionary is an argument of the function. Every path it returns, for any two
  strings and any \<^verbatim>\<open>maxSteps\<close>, is the one-word path of the start word, or has at least two
  words and a number of words minus one that is not \<^verbatim>\<open>>= maxSteps\<close>: fewer than
  \<^verbatim>\<open>maxSteps + 1\<close> words for a finite \<^verbatim>\<open>maxSteps\<close>, at most \<^verbatim>\<open>maxSteps\<close> words for an integer
  \<^verbatim>\<open>maxSteps >= 1\<close>, the one-word path for \<^verbatim>\<open>maxSteps < 1\<close>. Two strings of equal length
  that are equal up to case get the one-word path, whatever \<^verbatim>\<open>maxSteps\<close> is.
\<close>

theorem generateWordLadder_hamming:
  "(isUpper startWord \<and> isUpper endWord \<and> length startWord = length endWord \<and>
    leNumber (mismatches startWord endWord + 1) maxSteps \<longrightarrow>
      (\<exists>p. generateWordLadder startWord endWord maxSteps = Some p \<and>
           length p = mismatches startWord endWord + 1 \<and>
           hd p = startWord \<and> last p = endWord \<and> successively differByOne p)) \<and>
   (generateWordLadder startWord endWord maxSteps = Some p \<longrightarrow>
      p = [startWord] \<or> (2 \<le> length p \<and> \<not> geNumber (length p - 1) maxSteps)) \<and>
   (\<forall>r. maxSteps = Num r \<and> generateWordLadder startWord endWord maxSteps = Some p \<longrightarrow>
      p = [startWord] \<or> real (length p) < r + 1) \<and>
   (\<forall>k. maxSteps = Num (of_int k) \<and> 1 \<le> k \<and>
        generateWordLadder startWord endWord maxSteps = Some p \<longrightarrow> int (length p) \<le> k) \<and>
   (\<forall>r. maxSteps = Num r \<and> r < 1 \<and> generateWordLadder startWord endWord maxSteps = Some p \<longrightarrow>
      p = [startWord]) \<and>
   (length startWord = length endWord \<and> toUpperCase startWord = toUpperCase endWord \<longrightarrow>
      generateWordLadder startWord endWord maxSteps = Some [startWord])"
proof -
  have 1: "\<exists>p. generateWordLadder startWord endWord maxSteps = Some p \<and>
           length p = mismatches startWord endWord + 1 \<and>
           hd p = startWord \<and> last p = endWord \<and> successively differByOne p"
    if a: "isUpper startWord \<and> isUpper endWord \<and> length startWord = length endWord \<and>
      leNumber (mismatches startWord endWord + 1) maxSteps"
  proof -
    from a have u: "isUpper startWord" by simp
    from a generateWordLadder_upper [of startWord endWord maxSteps] obtain p where
      p: "generateWordLadder startWord endWord maxSteps = Some p"
        "length p = mismatches startWord endWord + 1"
        "walk generateNeighbors startWord endWord p" by blast
    from walk_generateNeighbors_differByOne [OF p(3) u] have "successively differByOne p" .
    with p show ?thesis by (auto simp: walk_def)
  qed
  have 2: "p = [startWord] \<or> (2 \<le> length p \<and> \<not> geNumber (length p - 1) maxSteps)"
    if "generateWordLadder startWord endWord maxSteps = Some p"
    using generateWordLadder_bound [OF that] by blast
  have 3: "p = [startWord] \<or> real (length p) < r + 1"
    if "maxSteps = Num r \<and> generateWordLadder startWord endWord maxSteps = Some p" for r
  proof -
    from that have eq: "maxSteps = Num r"
      and g: "generateWordLadder startWord endWord maxSteps = Some p" by blast+
    from 2 [OF g] have "p = [startWord] \<or> (2 \<le> length p \<and> \<not> geNumber (length p - 1) (Num r))"
      unfolding eq .
    then show ?thesis
    proof
      assume "p = [startWord]" then show ?thesis ..
    next
      assume b: "2 \<le> length p \<and> \<not> geNumber (length p - 1) (Num r)"
      then obtain n where n: "length p = Suc n" by (cases "length p") simp_all
      from b have "\<not> r \<le> real n" unfolding n by simp
      then have "real (length p) < r + 1" unfolding n by simp
      then show ?thesis ..
    qed
  qed
  have 4: "int (length p) \<le> k"
    if "maxSteps = Num (of_int k) \<and> 1 \<le> k \<and>
        generateWordLadder startWord endWord maxSteps = Some p" for k
  proof -
    from that have "maxSteps = Num (of_int k) \<and>
        generateWordLadder startWord endWord maxSteps = Some p" by blast
    from 3 [OF this] have "p = [startWord] \<or> real (length p) < of_int k + 1" .
    then show ?thesis
    proof
      assume "p = [startWord]" with that show ?thesis by simp
    next
      assume "real (length p) < of_int k + 1"
      then have "real_of_int (int (length p)) < real_of_int (k + 1)" by simp
      then have "int (length p) < k + 1" by (simp only: of_int_less_iff)
      then show ?thesis by simp
    qed
  qed
  have 5: "p = [startWord]"
    if "maxSteps = Num r \<and> r < 1 \<and> generateWordLadder startWord endWord maxSteps = Some p" for r
  proof -
    from that have g: "generateWordLadder startWord endWord maxSteps = Some p"
      and "maxSteps = Num r \<and> generateWordLadder startWord endWord maxSteps = Some p"
      by blast+
    from 3 [OF this(2)] have "p = [startWord] \<or> real (length p) < r + 1" .
    then show ?thesis
    proof
      assume "p = [startWord]" then show ?thesis .
    next
      assume "real (length p) < r + 1"
      with that have "real (length p) < 2" by simp
      then have l: "length p < 2" by simp
      from 2 [OF g] have "p = [startWord] \<or> 2 \<le> length p" by blast
      with l show ?thesis by auto
    qed
  qed
  have 6: "generateWordLadder startWord endWord maxSteps = Some [startWord]"
    if "length startWord = length endWord \<and> toUpperCase startWord = toUpperCase endWord"
    using that generateWordLadder_same by blast
  from 1 2 3 4 5 6 show ?thesis by blast
qed

text \<open>
  The amended claim from \<open>CAT\<close> to \<open>DOG\<close>, with the default of ten steps and with four and a
  half; one step is not enough from \<open>A\<close> to \<open>C\<close>.
\<close>

theorem generateWordLadder_hamming_witness:
  "(\<exists>p. generateWordLadder ''CAT'' ''DOG'' defaultMaxSteps = Some p \<and> length p = 4 \<and>
        hd p = ''CAT'' \<and> last p = ''DOG'' \<and> successively differByOne p) \<and>
   (\<exists>p. generateWordLadder ''CAT'' ''DOG'' (Num 4.5) = Some p \<and> length p = 4 \<and>
        real (length p) < 4.5 + 1) \<and>
   generateWordLadder ''A'' ''C'' (Num 1) = None"
proof -
  have u: "isUpper ''CAT''" "isUpper ''DOG''" by (simp_all add: isUpper_def letters_def)
  have m: "mismatches ''CAT'' ''DOG'' + 1 = 4" by simp
  have pre: "isUpper ''CAT'' \<and> isUpper ''DOG'' \<and> length ''CAT'' = length ''DOG'' \<and>
      leNumber (mismatches ''CAT'' ''DOG'' + 1) defaultMaxSteps"
    using u unfolding m by (simp add: defaultMaxSteps_def)
  have pre': "isUpper ''CAT'' \<and> isUpper ''DOG'' \<and> length ''CAT'' = length ''DOG'' \<and>
      leNumber (mismatches ''CAT'' ''DOG'' + 1) (Num 4.5)"
    using u unfolding m by simp
  from generateWordLadder_hamming [of "''CAT''" "''DOG''" defaultMaxSteps] pre
  obtain p where p: "generateWordLadder ''CAT'' ''DOG'' defaultMaxSteps = Some p"
    "length p = mismatches ''CAT'' ''DOG'' + 1" "hd p = ''CAT''" "last p = ''DOG''"
    "successively differByOne p"
    by blast
  from p(2) have "length p = 4" unfolding m .
  with p have 1: "\<exists>p. generateWordLadder ''CAT'' ''DOG'' defaultMaxSteps = Some p \<and> length p = 4 \<and>
        hd p = ''CAT'' \<and> last p = ''DOG'' \<and> successively differByOne p"
    by blast
  from generateWordLadder_hamming [of "''CAT''" "''DOG''" "Num 4.5"] pre'
  obtain p' where p': "generateWordLadder ''CAT'' ''DOG'' (Num 4.5) = Some p'"
    "length p' = mismatches ''CAT'' ''DOG'' + 1"
    by blast
  from p'(2) have l: "length p' = 4" unfolding m .
  then have "real (length p') < 4.5 + 1" by simp
  with p'(1) l have 2: "\<exists>p. generateWordLadder ''CAT'' ''DOG'' (Num 4.5) = Some p \<and> length p = 4 \<and>
        real (length p) < 4.5 + 1"
    by blast
  have up: "toUpperCase ''A'' = ''A''" "toUpperCase ''C'' = ''C''"
    by (simp_all add: toUpperCase_def toUpperChar_def lowerLetters_def letters_def)
  have 3: "generateWordLadder ''A'' ''C'' (Num 1) = None"
    by (simp add: generateWordLadder_def up)
  from 1 2 3 show ?thesis by blast
qed

end
